theory Spec2Isabelle
  imports Complex_Main
begin

section \<open>Data model of \<open>script.js\<close>\<close>

text \<open>
  The class \<open>TicTacToeGame\<close> keeps the board as a JavaScript array of nine entries, each
  \<open>null\<close> or one of the player strings \<open>'x'\<close> and \<open>'o'\<close>.  A JavaScript value that is
  read from an array is \<open>undefined\<close> when the index is out of range, so reads have three
  outcomes.  The constants \<open>PLAYER_X\<close> and \<open>PLAYER_O\<close> are the two marks.
\<close>

datatype mark = PLAYER_X | PLAYER_O

datatype 'a jsval = Undefined | Null | Val 'a

type_synonym cell = "mark jsval"
type_synonym board = "cell list"

datatype game_state = PLAYING | X_WINS | O_WINS | DRAW

record state =
  gameState :: game_state
  humanPlayer :: mark
  aiPlayer :: mark
  currentPlayer :: mark
  difficulty :: string
  board :: board
  moveCount :: nat

text \<open>Scores of the search are JavaScript numbers: integers, \<open>-Infinity\<close> and \<open>Infinity\<close>.\<close>

datatype score = NegInf | Fin int | PosInf

instantiation score :: linorder
begin

fun less_eq_score :: "score \<Rightarrow> score \<Rightarrow> bool" where
  "less_eq_score NegInf _ = True"
| "less_eq_score (Fin a) NegInf = False"
| "less_eq_score (Fin a) (Fin b) = (a \<le> b)"
| "less_eq_score (Fin a) PosInf = True"
| "less_eq_score PosInf PosInf = True"
| "less_eq_score PosInf _ = False"

definition less_score :: "score \<Rightarrow> score \<Rightarrow> bool" where
  "less_score a b = (a \<le> b \<and> \<not> b \<le> a)"

instance
proof
  fix x y z :: score
  show "(x < y) = (x \<le> y \<and> \<not> y \<le> x)" by (simp add: less_score_def)
  show "x \<le> x" by (cases x) auto
  show "x \<le> y \<Longrightarrow> y \<le> z \<Longrightarrow> x \<le> z" by (cases x; cases y; cases z) auto
  show "x \<le> y \<Longrightarrow> y \<le> x \<Longrightarrow> x = y" by (cases x; cases y) auto
  show "x \<le> y \<or> y \<le> x" by (cases x; cases y) auto
qed

end

subsection \<open>Array reads and writes\<close>

text \<open>\<open>board[i]\<close>: the entry, or \<open>undefined\<close> out of range.\<close>

definition cellAt :: "board \<Rightarrow> nat \<Rightarrow> cell" where
  "cellAt b i = (if i < length b then b ! i else Undefined)"

text \<open>\<open>board[i] = v\<close>: an assignment beyond the end extends the array, the holes read as
  \<open>undefined\<close>.\<close>

definition setCell :: "board \<Rightarrow> nat \<Rightarrow> cell \<Rightarrow> board" where
  "setCell b i v = (if i < length b then b[i := v]
                    else b @ replicate (i - length b) Undefined @ [v])"

text \<open>\<open>xs[k]\<close> for an array of numbers and a JavaScript number \<open>k\<close> that is an integer.\<close>

definition arrayGet :: "nat list \<Rightarrow> int \<Rightarrow> nat jsval" where
  "arrayGet xs k = (if 0 \<le> k \<and> k < int (length xs) then Val (xs ! nat k) else Undefined)"

text \<open>\<open>xs.indexOf(v)\<close>: the first position of \<open>v\<close>, or \<open>-1\<close>.\<close>

fun indexOf :: "'a list \<Rightarrow> 'a \<Rightarrow> int" where
  "indexOf [] v = -1"
| "indexOf (x # xs) v = (if x = v then 0 else (let r = indexOf xs v in if r = -1 then -1 else r + 1))"

text \<open>\<open>xs.includes(v)\<close> for an array of numbers.\<close>

fun arrayIncludes :: "nat list \<Rightarrow> nat jsval \<Rightarrow> bool" where
  "arrayIncludes xs (Val i) = (i \<in> set xs)"
| "arrayIncludes xs _ = False"

subsection \<open>Constants of the constructor\<close>

definition WINNING_COMBINATIONS :: "nat list list" where
  "WINNING_COMBINATIONS =
     [[0,1,2], [3,4,5], [6,7,8],
      [0,3,6], [1,4,7], [2,5,8],
      [0,4,8], [2,4,6]]"

definition CENTER :: nat where "CENTER = 4"
definition CORNERS :: "nat list" where "CORNERS = [0, 2, 6, 8]"
definition EDGES :: "nat list" where "EDGES = [1, 3, 5, 7]"

section \<open>Evaluator\<close>

definition checkForWin :: "mark \<Rightarrow> board \<Rightarrow> bool" where
  "checkForWin player b =
     list_ex (\<lambda>combo. list_all (\<lambda>index. cellAt b index = Val player) combo) WINNING_COMBINATIONS"

definition checkForDraw :: "state \<Rightarrow> bool" where
  "checkForDraw st =
     (list_all (\<lambda>cell. cell \<noteq> Null) (board st)
      \<and> \<not> checkForWin PLAYER_X (board st)
      \<and> \<not> checkForWin PLAYER_O (board st))"

definition evaluateBoard :: "mark \<Rightarrow> mark \<Rightarrow> board \<Rightarrow> int" where
  "evaluateBoard ai hu b =
     (if checkForWin ai b then 10 else if checkForWin hu b then -10 else 0)"

definition getEmptyIndices :: "board \<Rightarrow> nat list" where
  "getEmptyIndices b = [index \<leftarrow> [0..<length b]. b ! index = Null]"

section \<open>Casual policy\<close>

text \<open>
  \<open>getRandomMove\<close> calls \<open>Math.random()\<close> twice: \<open>r1\<close> is the value of the first call
  (compared with 0.3), \<open>r2\<close> the value of the second (scaled to an index).  The draws are
  parameters, taken as exact rationals; \<open>Math.random()\<close> returns values in \<open>[0, 1)\<close>.
\<close>

definition randomIndex :: "rat \<Rightarrow> nat \<Rightarrow> int" where
  "randomIndex r n = \<lfloor>r * of_nat n\<rfloor>"

definition getRandomMove :: "nat list \<Rightarrow> rat \<Rightarrow> rat \<Rightarrow> nat jsval" where
  "getRandomMove emptyIndices r1 r2 =
     (let fallback = arrayGet emptyIndices (randomIndex r2 (length emptyIndices)) in
      if r1 < 3 / 10
      then (let preferredMoves =
                  filter (\<lambda>index. index = CENTER \<or> arrayIncludes CORNERS (Val index)) emptyIndices
            in if length preferredMoves > 0
               then arrayGet preferredMoves (randomIndex r2 (length preferredMoves))
               else fallback)
      else fallback)"

section \<open>Strategic policy\<close>

text \<open>A line is completable by \<open>player\<close>: two of its cells hold the mark, one is \<open>null\<close>.\<close>

definition completable :: "board \<Rightarrow> mark \<Rightarrow> nat list \<Rightarrow> bool" where
  "completable b player combo =
     (let positions = map (cellAt b) combo;
          playerCount = length (filter (\<lambda>pos. pos = Val player) positions);
          emptyCount = length (filter (\<lambda>pos. pos = Null) positions)
      in playerCount = 2 \<and> emptyCount = 1)"

fun findWinningMove_loop :: "board \<Rightarrow> mark \<Rightarrow> nat list list \<Rightarrow> nat jsval" where
  "findWinningMove_loop b player [] = Null"
| "findWinningMove_loop b player (combo # rest) =
     (if completable b player combo
      then arrayGet combo (indexOf (map (cellAt b) combo) Null)
      else findWinningMove_loop b player rest)"

definition findWinningMove :: "state \<Rightarrow> mark \<Rightarrow> nat jsval" where
  "findWinningMove st player = findWinningMove_loop (board st) player WINNING_COMBINATIONS"

text \<open>
  \<open>findForkMove\<close> and \<open>findBlockForkMove\<close> write tentative marks into \<open>this.state.board\<close>
  and take them back; the state is passed through and returned.
\<close>

fun findForkMove_loop :: "mark \<Rightarrow> nat list \<Rightarrow> state \<Rightarrow> nat jsval \<times> state" where
  "findForkMove_loop player [] st = (Null, st)"
| "findForkMove_loop player (index # rest) st =
     (let st1 = st\<lparr>board := setCell (board st) index (Val player)\<rparr>;
          winningMoves = length (filter (completable (board st1) player) WINNING_COMBINATIONS);
          st2 = st1\<lparr>board := setCell (board st1) index Null\<rparr>
      in if winningMoves \<ge> 2 then (Val index, st2)
         else findForkMove_loop player rest st2)"

definition findForkMove :: "state \<Rightarrow> mark \<Rightarrow> nat jsval \<times> state" where
  "findForkMove st player = findForkMove_loop player (getEmptyIndices (board st)) st"

text \<open>
  \<open>board[forcedDefense] = v\<close> where \<open>forcedDefense\<close> is not \<open>null\<close>: an index is written;
  \<open>undefined\<close> as a key sets a property of the array object and leaves the cells alone.
\<close>

fun setCellJs :: "board \<Rightarrow> nat jsval \<Rightarrow> cell \<Rightarrow> board" where
  "setCellJs b (Val i) v = setCell b i v"
| "setCellJs b _ v = b"

fun findBlockForkMove_loop :: "nat list \<Rightarrow> state \<Rightarrow> nat jsval \<times> state" where
  "findBlockForkMove_loop [] st = (Null, st)"
| "findBlockForkMove_loop (index # rest) st =
     (let st1 = st\<lparr>board := setCell (board st) index (Val (aiPlayer st))\<rparr>;
          forcedDefense = findWinningMove st1 (aiPlayer st1)
      in if forcedDefense \<noteq> Null
         then (let st2 = st1\<lparr>board := setCellJs (board st1) forcedDefense (Val (humanPlayer st1))\<rparr>;
                   (remainingForks, st3) = findForkMove st2 (humanPlayer st2);
                   st4 = st3\<lparr>board := setCellJs (board st3) forcedDefense Null\<rparr>
               in if remainingForks = Null
                  then (Val index, st4\<lparr>board := setCell (board st4) index Null\<rparr>)
                  else findBlockForkMove_loop rest (st4\<lparr>board := setCell (board st4) index Null\<rparr>))
         else findBlockForkMove_loop rest (st1\<lparr>board := setCell (board st1) index Null\<rparr>))"

definition findBlockForkMove :: "state \<Rightarrow> nat jsval \<times> state" where
  "findBlockForkMove st =
     (let (humanFork, st1) = findForkMove st (humanPlayer st)
      in if humanFork \<noteq> Null then (humanFork, st1)
         else findBlockForkMove_loop (getEmptyIndices (board st1)) st1)"

fun findOppositeCorner_loop :: "state \<Rightarrow> (nat \<times> nat) list \<Rightarrow> nat jsval" where
  "findOppositeCorner_loop st [] = Null"
| "findOppositeCorner_loop st ((corner, opposite) # rest) =
     (if cellAt (board st) corner = Val (humanPlayer st) \<and> cellAt (board st) opposite = Null
      then Val opposite
      else findOppositeCorner_loop st rest)"

definition findOppositeCorner :: "state \<Rightarrow> nat jsval" where
  "findOppositeCorner st = findOppositeCorner_loop st [(0, 8), (2, 6), (6, 2), (8, 0)]"

text \<open>
  \<open>getStrategicMove\<close> calls \<open>Math.random()\<close> at most once (\<open>r\<close>), in the corner, edge and
  fallback steps.
\<close>

definition getStrategicMove :: "state \<Rightarrow> nat list \<Rightarrow> rat \<Rightarrow> nat jsval \<times> state" where
  "getStrategicMove st emptyIndices r =
     (let winMove = findWinningMove st (aiPlayer st) in
      if winMove \<noteq> Null then (winMove, st) else
      let blockMove = findWinningMove st (humanPlayer st) in
      if blockMove \<noteq> Null then (blockMove, st) else
      let (forkMove, st1) = findForkMove st (aiPlayer st) in
      if forkMove \<noteq> Null then (forkMove, st1) else
      let (blockForkMove, st2) = findBlockForkMove st1 in
      if blockForkMove \<noteq> Null then (blockForkMove, st2) else
      if arrayIncludes emptyIndices (Val CENTER) then (Val CENTER, st2) else
      let oppositeCorner = findOppositeCorner st2 in
      if oppositeCorner \<noteq> Null \<and> arrayIncludes emptyIndices oppositeCorner
      then (oppositeCorner, st2) else
      let availableCorners = filter (\<lambda>corner. arrayIncludes emptyIndices (Val corner)) CORNERS in
      if length availableCorners > 0
      then (arrayGet availableCorners (randomIndex r (length availableCorners)), st2) else
      let availableEdges = filter (\<lambda>edge. arrayIncludes emptyIndices (Val edge)) EDGES in
      if length availableEdges > 0
      then (arrayGet availableEdges (randomIndex r (length availableEdges)), st2)
      else (arrayGet emptyIndices (randomIndex r (length emptyIndices)), st2))"

section \<open>Expert policy: minimax with alpha-beta cutoff\<close>

text \<open>
  \<open>minimax\<close> writes the tentative mark into the array it is given and resets the cell to
  \<open>null\<close> after the recursive call; the array is passed through and returned next to the
  result \<open>{score, index}\<close>.  \<open>minimax_loop\<close> is the \<open>for\<close> loop over \<open>emptyIndices\<close> with its
  \<open>break\<close>.
\<close>

type_synonym move = "score \<times> nat jsval"

function minimax :: "mark \<Rightarrow> mark \<Rightarrow> board \<Rightarrow> mark \<Rightarrow> bool \<Rightarrow> nat \<Rightarrow> score \<Rightarrow> score \<Rightarrow> move \<times> board"
  and minimax_loop :: "mark \<Rightarrow> mark \<Rightarrow> mark \<Rightarrow> bool \<Rightarrow> nat \<Rightarrow> nat list \<Rightarrow> board \<Rightarrow> move \<Rightarrow> score \<Rightarrow> score \<Rightarrow> move \<times> board"
where
  "minimax ai hu b player isMaximizing depth alpha beta =
     (let score = evaluateBoard ai hu b in
      if score = 10 then ((Fin (score - int depth), Null), b)
      else if score = -10 then ((Fin (score + int depth), Null), b)
      else if length (getEmptyIndices b) = 0 then ((Fin 0, Null), b)
      else if depth > 8 then ((Fin 0, Null), b)
      else let emptyIndices = getEmptyIndices b;
               bestMove = (if isMaximizing then NegInf else PosInf, arrayGet emptyIndices 0)
           in minimax_loop ai hu player isMaximizing depth emptyIndices b bestMove alpha beta)"
| "minimax_loop ai hu player isMaximizing depth [] b bestMove alpha beta = (bestMove, b)"
| "minimax_loop ai hu player isMaximizing depth (index # rest) b bestMove alpha beta =
     (let b1 = setCell b index (Val player);
          (result, b2) = minimax ai hu b1 (if isMaximizing then hu else ai) (\<not> isMaximizing)
                           (depth + 1) alpha beta;
          b3 = setCell b2 index Null;
          bestMove' = (if isMaximizing
                       then (if fst result > fst bestMove then (fst result, Val index) else bestMove)
                       else (if fst result < fst bestMove then (fst result, Val index) else bestMove));
          alpha' = (if isMaximizing then max alpha (fst result) else alpha);
          beta' = (if isMaximizing then beta else min beta (fst result))
      in if beta' \<le> alpha' then (bestMove', b3)
         else minimax_loop ai hu player isMaximizing depth rest b3 bestMove' alpha' beta')"
  by pat_completeness auto
termination
  by (relation "inv_image (less_than <*lex*> less_than) (\<lambda>x. case x of
        Inl (ai, hu, b, p, mx, d, al, be) \<Rightarrow> (2 * (10 - d), 0)
      | Inr (ai, hu, p, mx, d, es, b, bm, al, be) \<Rightarrow> (2 * (9 - d) + 1, length es))") auto

declare minimax.simps [simp del] minimax_loop.simps [simp del]

definition getOptimalMove :: "state \<Rightarrow> nat jsval \<times> state" where
  "getOptimalMove st =
     (let (result, b') = minimax (aiPlayer st) (humanPlayer st) (board st) (aiPlayer st) True 0 NegInf PosInf
      in (snd result, st\<lparr>board := b'\<rparr>))"

section \<open>Move selector\<close>

definition getBestAIMove :: "state \<Rightarrow> rat \<Rightarrow> rat \<Rightarrow> nat jsval \<times> state" where
  "getBestAIMove st r1 r2 =
     (let emptyIndices = getEmptyIndices (board st) in
      if length emptyIndices = 0 then (Null, st)
      else if difficulty st = ''easy'' then (getRandomMove emptyIndices r1 r2, st)
      else if difficulty st = ''medium'' then getStrategicMove st emptyIndices r1
      else if difficulty st = ''hard'' then getOptimalMove st
      else (getRandomMove emptyIndices r1 r2, st))"

section \<open>Turn handling\<close>

text \<open>
  The methods that advance a round.  Rendering, focus handling, the score counters and the
  \<open>setTimeout\<close> delay before \<open>makeAIMove\<close> are left out: they do not touch the fields modelled
  here.  An event of \<open>handlePlayerInput\<close> is represented by the value of
  \<open>parseInt(cell.dataset.index)\<close>: an integer, or \<open>NaN\<close> (\<open>None\<close>).
\<close>

definition startNewRound :: "state \<Rightarrow> state" where
  "startNewRound st =
     st\<lparr>gameState := PLAYING, currentPlayer := PLAYER_X,
        board := map (\<lambda>_. Null) (board st), moveCount := 0\<rparr>"

text \<open>
  \<open>makeMove(index, player)\<close>: for \<open>null\<close> and \<open>undefined\<close> both comparisons are false and
  \<open>board[index]\<close> is \<open>undefined\<close>, so nothing is placed.
\<close>

fun makeMove :: "state \<Rightarrow> nat jsval \<Rightarrow> mark \<Rightarrow> state" where
  "makeMove st (Val index) player =
     (if index > 8 \<or> cellAt (board st) index \<noteq> Null then st
      else st\<lparr>board := setCell (board st) index (Val player), moveCount := moveCount st + 1\<rparr>)"
| "makeMove st _ player = st"

text \<open>\<open>endGame(isDraw, winner = null)\<close>.\<close>

definition endGame :: "state \<Rightarrow> bool \<Rightarrow> mark jsval \<Rightarrow> state" where
  "endGame st isDraw winner =
     (if isDraw then st\<lparr>gameState := DRAW\<rparr>
      else st\<lparr>gameState := (if winner = Val PLAYER_X then X_WINS else O_WINS)\<rparr>)"

definition switchTurns :: "state \<Rightarrow> state" where
  "switchTurns st =
     st\<lparr>currentPlayer := (if currentPlayer st = PLAYER_X then PLAYER_O else PLAYER_X)\<rparr>"

definition handlePlayerInput :: "state \<Rightarrow> int option \<Rightarrow> state" where
  "handlePlayerInput st cellIndex =
     (if gameState st \<noteq> PLAYING then st
      else case cellIndex of
        None \<Rightarrow> st
      | Some k \<Rightarrow>
          if k < 0 \<or> k > 8 then st
          else if currentPlayer st \<noteq> humanPlayer st then st
          else if cellAt (board st) (nat k) \<noteq> Null then st
          else let st1 = makeMove st (Val (nat k)) (humanPlayer st) in
               if checkForWin (humanPlayer st1) (board st1) then endGame st1 False (Val (humanPlayer st1))
               else if checkForDraw st1 then endGame st1 True Null
               else switchTurns st1)"

definition makeAIMove :: "state \<Rightarrow> rat \<Rightarrow> rat \<Rightarrow> state" where
  "makeAIMove st r1 r2 =
     (if gameState st \<noteq> PLAYING \<or> currentPlayer st \<noteq> aiPlayer st then st
      else let (bestMove, st0) = getBestAIMove st r1 r2 in
           if bestMove = Null then st0
           else let st1 = makeMove st0 bestMove (aiPlayer st0) in
                if checkForWin (aiPlayer st1) (board st1) then endGame st1 False (Val (aiPlayer st1))
                else if checkForDraw st1 then endGame st1 True Null
                else switchTurns st1)"

section \<open>Rounds of the Expert engine\<close>

text \<open>
  The states of a round in which the engine plays X (so it moves first) at difficulty
  \<open>hard\<close>: the round starts with \<open>startNewRound\<close> on a nine-cell board and proceeds by any
  sequence of \<open>makeAIMove\<close> calls and cell clicks.
\<close>

inductive reachable :: "state \<Rightarrow> bool" where
  start: "length (board st) = 9 \<Longrightarrow> aiPlayer st = PLAYER_X \<Longrightarrow> humanPlayer st = PLAYER_O
          \<Longrightarrow> difficulty st = ''hard'' \<Longrightarrow> reachable (startNewRound st)"
| engine: "reachable st \<Longrightarrow> reachable (makeAIMove st r1 r2)"
| human: "reachable st \<Longrightarrow> reachable (handlePlayerInput st cellIndex)"

text \<open>
  A game in which both sides play the Expert policy: after each engine move the roles of
  engine and opponent are exchanged, so that the side to move always chooses with
  \<open>getOptimalMove\<close>.
\<close>

definition swapSides :: "state \<Rightarrow> state" where
  "swapSides st = st\<lparr>humanPlayer := aiPlayer st, aiPlayer := humanPlayer st\<rparr>"

fun selfPlay :: "nat \<Rightarrow> state \<Rightarrow> state" where
  "selfPlay 0 st = st"
| "selfPlay (Suc n) st =
     (if gameState st \<noteq> PLAYING then st else selfPlay n (swapSides (makeAIMove st 0 0)))"

definition expertStart :: state where
  "expertStart = startNewRound \<lparr>gameState = PLAYING, humanPlayer = PLAYER_O, aiPlayer = PLAYER_X,
     currentPlayer = PLAYER_X, difficulty = ''hard'',
     board = [Null, Null, Null, Null, Null, Null, Null, Null, Null], moveCount = 0\<rparr>"

section \<open>Auxiliary definitions\<close>

subsection \<open>Unpruned minimax\<close>

text \<open>
  The reference search of the specification: the same terminal tests, the same
  depth-adjusted scores and the same strict comparison that keeps the first best index, over
  all empty cells in ascending order, without \<open>alpha\<close>, \<open>beta\<close> and the cutoff.  It works on
  a copy of the board.  It is the object \<open>minimax\<close> is compared with, not a model of code.
\<close>

definition unpruned_step :: "bool \<Rightarrow> move \<Rightarrow> nat \<Rightarrow> move \<Rightarrow> move" where
  "unpruned_step isMaximizing bestMove index result =
     (if isMaximizing
      then (if fst result > fst bestMove then (fst result, Val index) else bestMove)
      else (if fst result < fst bestMove then (fst result, Val index) else bestMove))"

function minimax_unpruned :: "mark \<Rightarrow> mark \<Rightarrow> board \<Rightarrow> mark \<Rightarrow> bool \<Rightarrow> nat \<Rightarrow> move" where
  "minimax_unpruned ai hu b player isMaximizing depth =
     (let score = evaluateBoard ai hu b in
      if score = 10 then (Fin (score - int depth), Null)
      else if score = -10 then (Fin (score + int depth), Null)
      else if length (getEmptyIndices b) = 0 then (Fin 0, Null)
      else if depth > 8 then (Fin 0, Null)
      else foldl (\<lambda>bestMove index.
                    unpruned_step isMaximizing bestMove index
                      (minimax_unpruned ai hu (setCell b index (Val player))
                         (if isMaximizing then hu else ai) (\<not> isMaximizing) (depth + 1)))
             (if isMaximizing then NegInf else PosInf, arrayGet (getEmptyIndices b) 0)
             (getEmptyIndices b))"
  by pat_completeness auto
termination
  by (relation "measure (\<lambda>(ai, hu, b, p, mx, d). 9 - d)") auto

declare minimax_unpruned.simps [simp del]

subsection \<open>The result of a search, apart from the board\<close>

text \<open>
  \<open>minimax_result\<close> and \<open>loop_result\<close> are the \<open>{score, index}\<close> components of \<open>minimax\<close>
  and of its loop; \<open>terminal\<close> and \<open>leaf_move\<close> name the four early returns.
  \<open>window_bounds a b v r\<close> relates the score \<open>r\<close> returned for the window \<open>(a, b)\<close> to the
  unpruned value \<open>v\<close>: exact inside the window, a bound on the right side outside.
\<close>

definition minimax_result :: "mark \<Rightarrow> mark \<Rightarrow> board \<Rightarrow> mark \<Rightarrow> bool \<Rightarrow> nat \<Rightarrow> score \<Rightarrow> score \<Rightarrow> move" where
  "minimax_result ai hu b player mx d al be = fst (minimax ai hu b player mx d al be)"

definition loop_result :: "mark \<Rightarrow> mark \<Rightarrow> mark \<Rightarrow> bool \<Rightarrow> nat \<Rightarrow> nat list \<Rightarrow> board \<Rightarrow> move \<Rightarrow> score \<Rightarrow> score \<Rightarrow> move" where
  "loop_result ai hu player mx d es b best al be = fst (minimax_loop ai hu player mx d es b best al be)"

definition terminal :: "mark \<Rightarrow> mark \<Rightarrow> board \<Rightarrow> nat \<Rightarrow> bool" where
  "terminal ai hu b d \<longleftrightarrow> checkForWin ai b \<or> checkForWin hu b \<or> getEmptyIndices b = [] \<or> d > 8"

definition leaf_move :: "mark \<Rightarrow> mark \<Rightarrow> board \<Rightarrow> nat \<Rightarrow> move" where
  "leaf_move ai hu b d =
     (if checkForWin ai b then (Fin (10 - int d), Null)
      else if checkForWin hu b then (Fin (- 10 + int d), Null)
      else (Fin 0, Null))"

definition ab_step :: "bool \<Rightarrow> move \<Rightarrow> nat \<Rightarrow> score \<Rightarrow> move" where
  "ab_step mx best i r =
     (if mx then (if r > fst best then (r, Val i) else best)
      else (if r < fst best then (r, Val i) else best))"

definition window_bounds :: "score \<Rightarrow> score \<Rightarrow> score \<Rightarrow> score \<Rightarrow> bool" where
  "window_bounds a b v r \<longleftrightarrow>
     (a < r \<and> r < b \<longrightarrow> r = v) \<and> (r \<le> a \<longrightarrow> v \<le> r) \<and> (b \<le> r \<longrightarrow> r \<le> v)"

definition unpruned_child :: "mark \<Rightarrow> mark \<Rightarrow> board \<Rightarrow> mark \<Rightarrow> bool \<Rightarrow> nat \<Rightarrow> nat \<Rightarrow> score" where
  "unpruned_child ai hu b p mx d i =
     fst (minimax_unpruned ai hu (setCell b i (Val p)) (if mx then hu else ai) (\<not> mx) (d + 1))"

definition unpruned_fold :: "mark \<Rightarrow> mark \<Rightarrow> board \<Rightarrow> mark \<Rightarrow> bool \<Rightarrow> nat \<Rightarrow> move \<Rightarrow> nat list \<Rightarrow> move" where
  "unpruned_fold ai hu b p mx d best es =
     foldl (\<lambda>best i. ab_step mx best i (unpruned_child ai hu b p mx d i)) best es"

subsection \<open>The search on an explicit nine-cell board\<close>

text \<open>
  \<open>scan\<close> is the loop of \<open>minimax\<close> from cell \<open>k\<close> on; the other constants name the pieces of
  one loop step and the depth-dependent scores, so that a search on a given board unfolds by
  rewriting.
\<close>

definition scan :: "mark \<Rightarrow> mark \<Rightarrow> mark \<Rightarrow> bool \<Rightarrow> nat \<Rightarrow> board \<Rightarrow> nat \<Rightarrow> move \<Rightarrow> score \<Rightarrow> score \<Rightarrow> move" where
  "scan ai hu p mx d b k best al be =
     loop_result ai hu p mx d (filter (\<lambda>i. b ! i = Null) [k..<length b]) b best al be"

definition found_move :: "move \<Rightarrow> move" where
  "found_move m = (if snd m = Null then (Fin 0, Null) else m)"

definition step_max :: "mark \<Rightarrow> mark \<Rightarrow> nat \<Rightarrow> board \<Rightarrow> nat \<Rightarrow> score \<Rightarrow> nat jsval \<Rightarrow> score \<Rightarrow> score \<Rightarrow> nat jsval \<Rightarrow> score \<Rightarrow> move" where
  "step_max ai hu d b k' bs bi al be i r =
     (if be \<le> max al r then (if bs < r then (r, i) else (bs, bi))
      else scan ai hu ai True d b k' (if bs < r then (r, i) else (bs, bi)) (max al r) be)"

definition step_min :: "mark \<Rightarrow> mark \<Rightarrow> nat \<Rightarrow> board \<Rightarrow> nat \<Rightarrow> score \<Rightarrow> nat jsval \<Rightarrow> score \<Rightarrow> score \<Rightarrow> nat jsval \<Rightarrow> score \<Rightarrow> move" where
  "step_min ai hu d b k' bs bi al be i r =
     (if min be r \<le> al then (if r < bs then (r, i) else (bs, bi))
      else scan ai hu hu False d b k' (if r < bs then (r, i) else (bs, bi)) al (min be r))"

definition line3 :: "mark \<Rightarrow> cell \<Rightarrow> cell \<Rightarrow> cell \<Rightarrow> bool" where
  "line3 p x y z = (if x = Val p then (if y = Val p then z = Val p else False) else False)"

definition win9 :: "mark \<Rightarrow> cell \<Rightarrow> cell \<Rightarrow> cell \<Rightarrow> cell \<Rightarrow> cell \<Rightarrow> cell \<Rightarrow> cell \<Rightarrow> cell \<Rightarrow> cell \<Rightarrow> bool" where
  "win9 p c0 c1 c2 c3 c4 c5 c6 c7 c8 =
     (if line3 p c0 c1 c2 then True else if line3 p c3 c4 c5 then True
      else if line3 p c6 c7 c8 then True else if line3 p c0 c3 c6 then True
      else if line3 p c1 c4 c7 then True else if line3 p c2 c5 c8 then True
      else if line3 p c0 c4 c8 then True else line3 p c2 c4 c6)"

definition next_depth :: "nat \<Rightarrow> nat" where "next_depth d = d + 1"

definition win_score :: "nat \<Rightarrow> score" where "win_score d = Fin (10 - int d)"

definition loss_score :: "nat \<Rightarrow> score" where "loss_score d = Fin (- 10 + int d)"

definition too_deep :: "nat \<Rightarrow> bool" where "too_deep d = (8 < d)"

subsection \<open>Invariant of the rounds of the Expert engine\<close>

definition expert_inv :: "state \<Rightarrow> bool" where
  "expert_inv st \<longleftrightarrow>
     aiPlayer st = PLAYER_X \<and> humanPlayer st = PLAYER_O \<and> difficulty st = ''hard''
     \<and> length (board st) = 9 \<and> gameState st \<noteq> O_WINS
     \<and> (gameState st = PLAYING \<longrightarrow>
          \<not> checkForWin PLAYER_X (board st) \<and> \<not> checkForWin PLAYER_O (board st)
          \<and> getEmptyIndices (board st) \<noteq> []
          \<and> (currentPlayer st = PLAYER_X \<longrightarrow>
                Fin 0 \<le> fst (minimax_unpruned PLAYER_X PLAYER_O (board st) PLAYER_X True 0))
          \<and> (currentPlayer st = PLAYER_O \<longrightarrow>
                length (getEmptyIndices (board st)) \<le> 8
                \<and> Fin 0 \<le> fst (minimax_unpruned PLAYER_X PLAYER_O (board st) PLAYER_O False 1)))"

subsection \<open>Concrete inputs\<close>

definition casualCandidates :: "nat list \<Rightarrow> rat \<Rightarrow> nat list" where
  "casualCandidates es r1 =
     (let pm = [i \<leftarrow> es. i = 4 \<or> i \<in> {0, 2, 6, 8}]
      in if r1 < 3 / 10 \<and> pm \<noteq> [] then pm else es)"


definition c6_state :: state where
  "c6_state = \<lparr>gameState = PLAYING, humanPlayer = PLAYER_X, aiPlayer = PLAYER_O,
     currentPlayer = PLAYER_O, difficulty = ''medium'',
     board = [Val PLAYER_X, Val PLAYER_X, Null, Val PLAYER_O, Val PLAYER_O, Null, Null, Null, Null],
     moveCount = 4\<rparr>"

definition c7_full :: state where
  "c7_full = \<lparr>gameState = PLAYING, humanPlayer = PLAYER_X, aiPlayer = PLAYER_O,
     currentPlayer = PLAYER_O, difficulty = ''hard'',
     board = [Val PLAYER_X, Val PLAYER_O, Val PLAYER_X, Val PLAYER_X, Val PLAYER_O, Val PLAYER_O,
              Val PLAYER_O, Val PLAYER_X, Val PLAYER_X],
     moveCount = 9\<rparr>"

definition c7_malformed :: state where
  "c7_malformed = \<lparr>gameState = PLAYING, humanPlayer = PLAYER_X, aiPlayer = PLAYER_O,
     currentPlayer = PLAYER_O, difficulty = ''easy'',
     board = [Undefined, Null, Val PLAYER_X], moveCount = 0\<rparr>"

definition c10_state :: state where
  "c10_state = \<lparr>gameState = PLAYING, humanPlayer = PLAYER_X, aiPlayer = PLAYER_O,
     currentPlayer = PLAYER_O, difficulty = ''expert'',
     board = [Val PLAYER_X, Null, Null, Null, Null, Null, Null, Null, Null], moveCount = 1\<rparr>"

definition c9_state :: state where
  "c9_state = \<lparr>gameState = PLAYING, humanPlayer = PLAYER_X, aiPlayer = PLAYER_O,
     currentPlayer = PLAYER_O, difficulty = ''hard'',
     board = [Val PLAYER_X, Val PLAYER_X, Val PLAYER_X, Val PLAYER_O, Val PLAYER_O, Null, Null, Null, Null],
     moveCount = 5\<rparr>"

definition c4_state :: state where
  "c4_state = \<lparr>gameState = PLAYING, humanPlayer = PLAYER_O, aiPlayer = PLAYER_X,
     currentPlayer = PLAYER_X, difficulty = ''hard'',
     board = [Null, Null, Null, Null, Null, Val PLAYER_X, Val PLAYER_O, Val PLAYER_O, Val PLAYER_X],
     moveCount = 4\<rparr>"

definition c5_block_state :: state where
  "c5_block_state = \<lparr>gameState = PLAYING, humanPlayer = PLAYER_X, aiPlayer = PLAYER_O,
     currentPlayer = PLAYER_O, difficulty = ''hard'',
     board = [Val PLAYER_X, Val PLAYER_X, Null, Val PLAYER_O, Null, Null, Null, Null, Null],
     moveCount = 3\<rparr>"

definition c5_fork_state :: state where
  "c5_fork_state = \<lparr>gameState = PLAYING, humanPlayer = PLAYER_X, aiPlayer = PLAYER_O,
     currentPlayer = PLAYER_O, difficulty = ''hard'',
     board = [Null, Null, Null, Null, Val PLAYER_X, Val PLAYER_X, Val PLAYER_X, Val PLAYER_O, Val PLAYER_O],
     moveCount = 5\<rparr>"

definition round1_state :: state where
  "round1_state = handlePlayerInput (makeAIMove expertStart 0 0) (Some 4)"

section \<open>Verified properties\<close>

subsection \<open>The Casual policy and the move selector\<close>

lemma set_getEmptyIndices:
  "i \<in> set (getEmptyIndices b) \<longleftrightarrow> i < length b \<and> b ! i = Null"
  by (auto simp: getEmptyIndices_def)

lemma distinct_getEmptyIndices: "distinct (getEmptyIndices b)"
  by (simp add: getEmptyIndices_def)

lemma randomIndex_range:
  assumes "0 \<le> r" "r < 1" "0 < n"
  shows "0 \<le> randomIndex r n \<and> randomIndex r n < int n"
proof -
  have "0 \<le> r * of_nat n" using assms by simp
  moreover have "r * of_nat n < of_nat n" using assms by simp
  ultimately show ?thesis
    unfolding randomIndex_def by (simp add: floor_less_iff)
qed


lemma arrayGet_randomIndex:
  assumes "0 \<le> r" "r < 1" "xs \<noteq> []"
  shows "arrayGet xs (randomIndex r (length xs)) = Val (xs ! nat (randomIndex r (length xs)))"
    and "nat (randomIndex r (length xs)) < length xs"
  using randomIndex_range[OF assms(1,2), of "length xs"] assms(3)
  by (auto simp: arrayGet_def)

lemma getRandomMove_candidates:
  "getRandomMove es r1 r2 =
     arrayGet (casualCandidates es r1) (randomIndex r2 (length (casualCandidates es r1)))"
  by (auto simp: getRandomMove_def casualCandidates_def Let_def CENTER_def CORNERS_def)

lemma casualCandidates_props:
  "set (casualCandidates es r1) \<subseteq> set es"
  "es \<noteq> [] \<Longrightarrow> casualCandidates es r1 \<noteq> []"
  "distinct es \<Longrightarrow> distinct (casualCandidates es r1)"
  by (auto simp: casualCandidates_def Let_def)

lemma getRandomMove_empty_cell:
  assumes "getEmptyIndices b \<noteq> []" "0 \<le> r2" "r2 < 1"
  shows "\<exists>i. getRandomMove (getEmptyIndices b) r1 r2 = Val i \<and> i < length b \<and> b ! i = Null"
proof -
  let ?c = "casualCandidates (getEmptyIndices b) r1"
  have ne: "?c \<noteq> []" using assms(1) by (rule casualCandidates_props)
  have "?c ! nat (randomIndex r2 (length ?c)) \<in> set ?c"
    using arrayGet_randomIndex(2)[OF assms(2,3) ne] by simp
  then have "?c ! nat (randomIndex r2 (length ?c)) \<in> set (getEmptyIndices b)"
    using casualCandidates_props(1) by blast
  then show ?thesis
    using arrayGet_randomIndex(1)[OF assms(2,3) ne]
    by (simp add: getRandomMove_candidates set_getEmptyIndices)
qed



lemma c6_strategic: "fst (getStrategicMove c6_state (getEmptyIndices (board c6_state)) r) = Val 5"
  by (simp add: getStrategicMove_def c6_state_def findWinningMove_def WINNING_COMBINATIONS_def
      completable_def cellAt_def arrayGet_def)

lemma c6_optimal: "fst (getOptimalMove c6_state) = Val 5"
  by code_simp

text \<open>
  Claim C6 (as amended).  On the board \<open>[X,X,null,O,O,null,null,null,null]\<close> with engine O and
  human X, the Strategic and the Expert policy both return index 5, which completes O's own
  line 3-4-5: the win rule comes before the block rule.
\<close>

theorem c6_returns_5:
  "fst (getStrategicMove c6_state (getEmptyIndices (board c6_state)) r) = Val 5
   \<and> fst (getOptimalMove c6_state) = Val 5"
  using c6_strategic c6_optimal by simp

text \<open>Claim C6 as stated (both policies return index 2) fails on that board.\<close>

theorem c6_counterexample:
  "fst (getStrategicMove c6_state (getEmptyIndices (board c6_state)) 0) \<noteq> Val 2
   \<and> fst (getOptimalMove c6_state) \<noteq> Val 2"
  using c6_strategic[of 0] c6_optimal by simp

text \<open>
  Claim C7 as stated fails: on a full board \<open>getBestAIMove\<close> returns the value \<open>null\<close>, and on
  a malformed board (three entries, one of them \<open>undefined\<close>) it returns a move.
\<close>

theorem getBestAIMove_counterexample:
  "getBestAIMove c7_full 0 0 = (Null, c7_full)
   \<and> getBestAIMove c7_malformed 0 0 = (Val 1, c7_malformed)"
  by (simp add: getBestAIMove_def c7_full_def c7_malformed_def getEmptyIndices_def
      getRandomMove_def arrayGet_def randomIndex_def CENTER_def CORNERS_def upt_rec)

text \<open>
  Claim C7 (as amended).  On a board without an empty cell \<open>getBestAIMove\<close> returns \<open>null\<close>
  and leaves the state as it is.  The board is not validated: whatever its length and
  entries, when it has a \<open>null\<close> entry and the difficulty is \<open>easy\<close>, the result is the index
  of a \<open>null\<close> entry.
\<close>

theorem getBestAIMove_null_sentinel:
  "(getEmptyIndices (board st) = [] \<longrightarrow> getBestAIMove st r1 r2 = (Null, st))
   \<and> (getEmptyIndices (board st) \<noteq> [] \<and> difficulty st = ''easy'' \<and> 0 \<le> r2 \<and> r2 < 1
        \<longrightarrow> (\<exists>i. getBestAIMove st r1 r2 = (Val i, st) \<and> i < length (board st) \<and> board st ! i = Null))"
  using getRandomMove_empty_cell[of "board st" r2 r1]
  by (auto simp: getBestAIMove_def Let_def)

theorem getBestAIMove_null_sentinel_witness:
  "getEmptyIndices (board c7_full) = [] \<and> getBestAIMove c7_full 0 0 = (Null, c7_full)
   \<and> getEmptyIndices (board c7_malformed) \<noteq> [] \<and> difficulty c7_malformed = ''easy''
   \<and> (\<exists>i. getBestAIMove c7_malformed 0 (1/2) = (Val i, c7_malformed)
        \<and> i < length (board c7_malformed) \<and> board c7_malformed ! i = Null)"
proof -
  have a: "getEmptyIndices (board c7_full) = []"
    by (simp add: c7_full_def getEmptyIndices_def upt_rec)
  have b: "getEmptyIndices (board c7_malformed) \<noteq> []" "difficulty c7_malformed = ''easy''"
    by (simp_all add: c7_malformed_def getEmptyIndices_def upt_rec)
  show ?thesis
    using getBestAIMove_null_sentinel[of c7_full 0 0]
          getBestAIMove_null_sentinel[of c7_malformed 0 "1/2"] a b by simp
qed

text \<open>
  Claim C10.  For a difficulty other than \<open>easy\<close>, \<open>medium\<close> and \<open>hard\<close> and a board with an
  empty cell, \<open>getBestAIMove\<close> is \<open>getRandomMove\<close> on the empty cells, the same result as
  with difficulty \<open>easy\<close>, and (for a draw in \<open>[0, 1)\<close>) the index of an empty cell.
\<close>

theorem getBestAIMove_default:
  assumes "difficulty st \<notin> {''easy'', ''medium'', ''hard''}"
      and "getEmptyIndices (board st) \<noteq> []"
  shows "getBestAIMove st r1 r2 = (getRandomMove (getEmptyIndices (board st)) r1 r2, st)
         \<and> fst (getBestAIMove st r1 r2) = fst (getBestAIMove (st\<lparr>difficulty := ''easy''\<rparr>) r1 r2)
         \<and> (0 \<le> r2 \<and> r2 < 1 \<longrightarrow>
              (\<exists>i. fst (getBestAIMove st r1 r2) = Val i \<and> i < length (board st) \<and> board st ! i = Null))"
  using assms getRandomMove_empty_cell[of "board st" r2 r1]
  by (auto simp: getBestAIMove_def Let_def)

theorem getBestAIMove_default_witness:
  "difficulty c10_state \<notin> {''easy'', ''medium'', ''hard''}
   \<and> getEmptyIndices (board c10_state) \<noteq> []
   \<and> getBestAIMove c10_state (1/2) (1/2) = (Val 5, c10_state)
   \<and> fst (getBestAIMove (c10_state\<lparr>difficulty := ''easy''\<rparr>) (1/2) (1/2)) = Val 5"
proof -
  have a: "difficulty c10_state \<notin> {''easy'', ''medium'', ''hard''}"
    by (simp add: c10_state_def)
  have b: "getEmptyIndices (board c10_state) \<noteq> []"
    by (simp add: c10_state_def getEmptyIndices_def upt_rec)
  have c: "getRandomMove (getEmptyIndices (board c10_state)) (1/2) (1/2) = Val 5"
    by (simp add: c10_state_def getEmptyIndices_def upt_rec getRandomMove_def arrayGet_def
        randomIndex_def)
  show ?thesis using getBestAIMove_default[OF a b, of "1/2" "1/2"] a b c by auto
qed

subsection \<open>Tentative placements are reverted\<close>

lemma setCell_restore:
  "i < length b \<Longrightarrow> b ! i = Null \<Longrightarrow> setCell (setCell b i v) i Null = b"
  by (simp add: setCell_def list_update_same_conv)

lemma setCell_in_range:
  "i < length b \<Longrightarrow> setCell b i v = b[i := v]"
  by (simp add: setCell_def)

lemma findForkMove_loop_state:
  "(\<forall>i \<in> set es. i < length (board st) \<and> board st ! i = Null)
   \<Longrightarrow> snd (findForkMove_loop player es st) = st"
  by (induction es) (simp_all add: Let_def setCell_restore)

lemma findForkMove_state: "snd (findForkMove st player) = st"
  unfolding findForkMove_def
  by (rule findForkMove_loop_state) (simp add: set_getEmptyIndices)

lemma indexOf_found:
  "v \<in> set xs \<Longrightarrow> 0 \<le> indexOf xs v \<and> indexOf xs v < int (length xs) \<and> xs ! nat (indexOf xs v) = v"
proof (induction xs)
  case Nil
  then show ?case by simp
next
  case (Cons x xs)
  show ?case
  proof (cases "x = v")
    case True
    then show ?thesis by simp
  next
    case False
    with Cons have "0 \<le> indexOf xs v \<and> indexOf xs v < int (length xs) \<and> xs ! nat (indexOf xs v) = v"
      by simp
    then show ?thesis using False
      by (auto simp: Let_def nat_add_distrib)
  qed
qed

lemma filter_single_ex: "length (filter P xs) = 1 \<Longrightarrow> \<exists>x \<in> set xs. P x"
  by (induction xs) (auto split: if_splits)

lemma completable_has_null:
  "completable b player combo \<Longrightarrow> Null \<in> set (map (cellAt b) combo)"
  unfolding completable_def Let_def
  using filter_single_ex[of "\<lambda>pos. pos = Null" "map (cellAt b) combo"] by blast

lemma cellAt_Null: "cellAt b i = Null \<longleftrightarrow> i < length b \<and> b ! i = Null"
  by (simp add: cellAt_def)

lemma completable_move:
  assumes "completable b player combo"
  shows "\<exists>f. arrayGet combo (indexOf (map (cellAt b) combo) Null) = Val f
             \<and> f \<in> set combo \<and> f < length b \<and> b ! f = Null"
proof -
  let ?ps = "map (cellAt b) combo"
  let ?k = "indexOf ?ps Null"
  from indexOf_found[OF completable_has_null[OF assms]]
  have k: "0 \<le> ?k" "?k < int (length combo)" "?ps ! nat ?k = Null" by simp_all
  then have "nat ?k < length combo" by simp
  then have "cellAt b (combo ! nat ?k) = Null" "combo ! nat ?k \<in> set combo" using k(3) by simp_all
  then show ?thesis
    using k(1,2) by (simp add: arrayGet_def cellAt_Null)
qed

lemma findWinningMove_loop_cases:
  "findWinningMove_loop b player combos = Null
   \<or> (\<exists>f. findWinningMove_loop b player combos = Val f \<and> f < length b \<and> b ! f = Null)"
proof (induction combos)
  case Nil
  then show ?case by simp
next
  case (Cons combo rest)
  then show ?case using completable_move[of b player combo] by auto
qed

lemma findBlockForkMove_body:
  assumes "i < length (board st)" "board st ! i = Null"
  shows "snd (findBlockForkMove_loop (i # rest) st) = st
         \<or> snd (findBlockForkMove_loop (i # rest) st) = snd (findBlockForkMove_loop rest st)"
proof -
  let ?b1 = "setCell (board st) i (Val (aiPlayer st))"
  let ?st1 = "st\<lparr>board := ?b1\<rparr>"
  have undo: "st\<lparr>board := setCell ?b1 i Null\<rparr> = st"
    using assms by (simp add: setCell_restore)
  consider (none) "findWinningMove ?st1 (aiPlayer ?st1) = Null"
    | (some) f where "findWinningMove ?st1 (aiPlayer ?st1) = Val f" "f < length ?b1" "?b1 ! f = Null"
    using findWinningMove_loop_cases[of ?b1 "aiPlayer st" WINNING_COMBINATIONS]
    by (auto simp: findWinningMove_def)
  then show ?thesis
  proof cases
    case none
    then show ?thesis using undo by (simp add: Let_def)
  next
    case some
    let ?st2 = "st\<lparr>board := setCell ?b1 f (Val (humanPlayer st))\<rparr>"
    have fk: "snd (findForkMove ?st2 (humanPlayer st)) = ?st2" by (rule findForkMove_state)
    have r: "setCell (setCell ?b1 f (Val (humanPlayer st))) f Null = ?b1"
      using some(2,3) by (rule setCell_restore)
    obtain rf where rf: "findForkMove ?st2 (humanPlayer st) = (rf, ?st2)"
      using fk by (metis prod.collapse)
    show ?thesis
      using some(1) rf r undo by (simp add: Let_def)
  qed
qed

lemma findBlockForkMove_loop_state:
  "(\<forall>i \<in> set es. i < length (board st) \<and> board st ! i = Null)
   \<Longrightarrow> snd (findBlockForkMove_loop es st) = st"
proof (induction es)
  case Nil
  then show ?case by simp
next
  case (Cons i rest)
  then have "i < length (board st)" "board st ! i = Null" by simp_all
  from findBlockForkMove_body[OF this, of rest] Cons show ?case by auto
qed

lemma findBlockForkMove_state: "snd (findBlockForkMove st) = st"
proof -
  obtain hf where hf: "findForkMove st (humanPlayer st) = (hf, st)"
    using findForkMove_state[of st "humanPlayer st"] by (metis prod.collapse)
  have "snd (findBlockForkMove_loop (getEmptyIndices (board st)) st) = st"
    by (rule findBlockForkMove_loop_state) (simp add: set_getEmptyIndices)
  then show ?thesis by (simp add: findBlockForkMove_def hf)
qed

lemma getStrategicMove_state: "snd (getStrategicMove st es r) = st"
proof -
  obtain fm where fm: "findForkMove st (aiPlayer st) = (fm, st)"
    using findForkMove_state[of st "aiPlayer st"] by (metis prod.collapse)
  obtain bf where bf: "findBlockForkMove st = (bf, st)"
    using findBlockForkMove_state[of st] by (metis prod.collapse)
  show ?thesis by (simp add: getStrategicMove_def Let_def fm bf)
qed

lemma minimax_board_both:
  "snd (minimax ai hu b player mx d al be) = b"
  "(\<forall>i \<in> set es. i < length b \<and> b ! i = Null)
     \<Longrightarrow> snd (minimax_loop ai hu player mx d es b best al be) = b"
proof (induction ai hu b player mx d al be and ai hu player mx d es b best al be
       rule: minimax_minimax_loop.induct)
  case (1 ai hu b player isMaximizing depth alpha beta)
  show ?case
  proof (cases "evaluateBoard ai hu b = 10 \<or> evaluateBoard ai hu b = -10
                \<or> length (getEmptyIndices b) = 0 \<or> depth > 8")
    case True
    then show ?thesis by (auto simp: Let_def minimax.simps(1)[of ai hu b])
  next
    case False
    have "\<forall>i \<in> set (getEmptyIndices b). i < length b \<and> b ! i = Null"
      by (simp add: set_getEmptyIndices)
    with False 1 show ?thesis by (simp add: Let_def minimax.simps(1)[of ai hu b])
  qed
next
  case (2 ai hu player isMaximizing depth b bestMove alpha beta)
  then show ?case by (simp add: minimax_loop.simps)
next
  case (3 ai hu player isMaximizing depth index rest b bestMove alpha beta)
  let ?b1 = "setCell b index (Val player)"
  obtain result b2 where r: "minimax ai hu ?b1 (if isMaximizing then hu else ai) (\<not> isMaximizing)
                           (depth + 1) alpha beta = (result, b2)"
    by (metis prod.collapse)
  have b2: "b2 = ?b1" using "3.IH"(1)[OF refl] r by simp
  have b3: "setCell b2 index Null = b" using "3.prems" b2 by (simp add: setCell_restore)
  have rest: "\<forall>i \<in> set rest. i < length b \<and> b ! i = Null" using "3.prems" by simp
  show ?case
    using "3.IH"(2)[OF refl r[symmetric] refl b3[symmetric] refl refl refl _ rest] r b3
    by (auto simp: Let_def minimax_loop.simps(2)[of ai hu player isMaximizing depth index rest b])
qed

lemma getOptimalMove_state: "snd (getOptimalMove st) = st"
  using minimax_board_both(1)[of "aiPlayer st" "humanPlayer st" "board st" "aiPlayer st" True 0 NegInf PosInf]
  by (auto simp: getOptimalMove_def split: prod.splits)

text \<open>
  Claim C2.  \<open>findForkMove\<close>, \<open>findBlockForkMove\<close> and \<open>minimax\<close>, and with them the
  Strategic and the Expert policy, return the board (the state) they were given: every
  tentative placement is taken back on every path, the early returns and the cutoff
  included.  This holds for every array, whatever its length and entries.
\<close>

theorem policies_leave_board_unchanged:
  "snd (findForkMove st player) = st
   \<and> snd (findBlockForkMove st) = st
   \<and> snd (minimax ai hu b p isMaximizing depth alpha beta) = b
   \<and> snd (getStrategicMove st emptyIndices r) = st
   \<and> snd (getOptimalMove st) = st"
  using findForkMove_state findBlockForkMove_state minimax_board_both(1) getStrategicMove_state
    getOptimalMove_state by simp

subsection \<open>Equations of the search\<close>

lemma minimax_result_terminal:
  "terminal ai hu b d \<Longrightarrow> minimax_result ai hu b p mx d al be = leaf_move ai hu b d"
  by (auto simp: minimax_result_def terminal_def leaf_move_def minimax.simps[of ai hu b] evaluateBoard_def Let_def)

lemma minimax_result_node:
  "\<not> terminal ai hu b d \<Longrightarrow>
   minimax_result ai hu b p mx d al be =
     loop_result ai hu p mx d (getEmptyIndices b) b
       (if mx then NegInf else PosInf, Val (hd (getEmptyIndices b))) al be"
  by (cases "getEmptyIndices b")
     (auto simp: minimax_result_def loop_result_def terminal_def minimax.simps[of ai hu b]
       evaluateBoard_def Let_def arrayGet_def)

lemma loop_result_Nil: "loop_result ai hu p mx d [] b best al be = best"
  by (simp add: loop_result_def minimax_loop.simps)

lemma loop_result_Cons:
  assumes "i < length b" "b ! i = Null"
  shows "loop_result ai hu p mx d (i # rest) b best al be =
     (let r = fst (minimax_result ai hu (setCell b i (Val p)) (if mx then hu else ai) (\<not> mx) (d + 1) al be);
          best' = ab_step mx best i r;
          al' = (if mx then max al r else al);
          be' = (if mx then be else min be r)
      in if be' \<le> al' then best' else loop_result ai hu p mx d rest b best' al' be')"
proof -
  let ?b1 = "setCell b i (Val p)"
  obtain result b2 where r: "minimax ai hu ?b1 (if mx then hu else ai) (\<not> mx) (d + 1) al be = (result, b2)"
    by (metis prod.collapse)
  have "b2 = ?b1" using minimax_board_both(1)[of ai hu ?b1 "if mx then hu else ai" "\<not> mx" "d + 1" al be] r
    by simp
  then have "setCell b2 i Null = b" using assms by (simp add: setCell_restore)
  then show ?thesis
    using r by (simp add: loop_result_def minimax_result_def
        minimax_loop.simps(2)[of ai hu p mx d i rest b] Let_def ab_step_def)
qed

lemma unpruned_terminal:
  "terminal ai hu b d \<Longrightarrow> minimax_unpruned ai hu b p mx d = leaf_move ai hu b d"
  by (auto simp: terminal_def leaf_move_def minimax_unpruned.simps[of ai hu b] evaluateBoard_def Let_def)

lemma unpruned_node:
  "\<not> terminal ai hu b d \<Longrightarrow>
   minimax_unpruned ai hu b p mx d =
     foldl (\<lambda>best i. ab_step mx best i
              (fst (minimax_unpruned ai hu (setCell b i (Val p)) (if mx then hu else ai) (\<not> mx) (d + 1))))
       (if mx then NegInf else PosInf, Val (hd (getEmptyIndices b))) (getEmptyIndices b)"
  by (cases "getEmptyIndices b")
     (auto simp: terminal_def minimax_unpruned.simps[of ai hu b] unpruned_step_def ab_step_def
       evaluateBoard_def Let_def arrayGet_def)

lemma leaf_move_finite: "\<exists>x. fst (leaf_move ai hu b d) = Fin x"
  by (simp add: leaf_move_def)

lemma ab_step_finite:
  assumes "fst best \<noteq> (if mx then PosInf else NegInf)"
  shows "\<exists>x. fst (ab_step mx best i (Fin r)) = Fin x"
  using assms by (cases "fst best"; cases mx) (auto simp: ab_step_def less_score_def)

lemma loop_result_finite:
  assumes child: "\<And>b' p' al' be'. \<exists>x. fst (minimax_result ai hu b' p' (\<not> mx) (d + 1) al' be') = Fin x"
  shows "(\<forall>i \<in> set es. i < length b \<and> b ! i = Null)
     \<Longrightarrow> (es \<noteq> [] \<and> fst best \<noteq> (if mx then PosInf else NegInf)) \<or> (\<exists>x. fst best = Fin x)
     \<Longrightarrow> \<exists>x. fst (loop_result ai hu p mx d es b best al be) = Fin x"
proof (induction es arbitrary: best al be)
  case Nil
  then show ?case by (simp add: loop_result_Nil)
next
  case (Cons i rest)
  obtain r where r: "fst (minimax_result ai hu (setCell b i (Val p)) (if mx then hu else ai) (\<not> mx) (d + 1) al be) = Fin r"
    using child by blast
  have b0: "fst best \<noteq> (if mx then PosInf else NegInf)" using Cons.prems(2) by auto
  have fin: "\<exists>x. fst (ab_step mx best i (Fin r)) = Fin x" using b0 by (rule ab_step_finite)
  have i: "i < length b" "b ! i = Null" and rest: "\<forall>i \<in> set rest. i < length b \<and> b ! i = Null"
    using Cons.prems(1) by simp_all
  show ?case
    using Cons.IH[OF rest, of "ab_step mx best i (Fin r)"] fin r
    by (auto simp: loop_result_Cons[OF i] Let_def)
qed

lemma minimax_result_finite: "\<exists>x. fst (minimax_result ai hu b p mx d al be) = Fin x"
proof (induction "9 - d" arbitrary: d b p mx al be)
  case 0
  then have "terminal ai hu b d" by (simp add: terminal_def)
  then show ?case by (simp add: minimax_result_terminal leaf_move_finite)
next
  case (Suc n)
  show ?case
  proof (cases "terminal ai hu b d")
    case True
    then show ?thesis by (simp add: minimax_result_terminal leaf_move_finite)
  next
    case False
    then have ne: "getEmptyIndices b \<noteq> []" by (simp add: terminal_def)
    have n: "n = 9 - (d + 1)" using Suc.hyps(2) by simp
    have child: "\<And>b' p' al' be'. \<exists>x. fst (minimax_result ai hu b' p' (\<not> mx) (d + 1) al' be') = Fin x"
      using Suc.hyps(1)[OF n] by blast
    have "\<exists>x. fst (loop_result ai hu p mx d (getEmptyIndices b) b
             (if mx then NegInf else PosInf, Val (hd (getEmptyIndices b))) al be) = Fin x"
      by (rule loop_result_finite[OF child]) (use ne in \<open>auto simp: set_getEmptyIndices\<close>)
    then show ?thesis using False by (simp add: minimax_result_node)
  qed
qed

lemma loop_result_index:
  "(\<forall>i \<in> set es. i < length b \<and> b ! i = Null)
   \<Longrightarrow> snd (loop_result ai hu p mx d es b best al be) \<in> insert (snd best) (Val ` set es)"
proof (induction es arbitrary: best al be)
  case Nil
  then show ?case by (simp add: loop_result_Nil)
next
  case (Cons i rest)
  have i: "i < length b" "b ! i = Null" and rest: "\<forall>i \<in> set rest. i < length b \<and> b ! i = Null"
    using Cons.prems by simp_all
  define r where "r = fst (minimax_result ai hu (setCell b i (Val p)) (if mx then hu else ai) (\<not> mx) (d + 1) al be)"
  define best' where "best' = ab_step mx best i r"
  have st: "snd best' \<in> {snd best, Val i}"
    by (simp add: best'_def ab_step_def)
  have "loop_result ai hu p mx d (i # rest) b best al be = best'
        \<or> (\<exists>al' be'. loop_result ai hu p mx d (i # rest) b best al be
                         = loop_result ai hu p mx d rest b best' al' be')"
    unfolding loop_result_Cons[OF i] Let_def r_def[symmetric] best'_def[symmetric] by auto
  then show ?case
  proof
    assume "loop_result ai hu p mx d (i # rest) b best al be = best'"
    then show ?thesis using st by auto
  next
    assume "\<exists>al' be'. loop_result ai hu p mx d (i # rest) b best al be
                         = loop_result ai hu p mx d rest b best' al' be'"
    then obtain al' be' where e: "loop_result ai hu p mx d (i # rest) b best al be
                         = loop_result ai hu p mx d rest b best' al' be'" by blast
    have "snd (loop_result ai hu p mx d rest b best' al' be') \<in> insert (snd best') (Val ` set rest)"
      by (rule Cons.IH[OF rest])
    then show ?thesis using st e by auto
  qed
qed

lemma minimax_result_index:
  assumes "\<not> terminal ai hu b d"
  shows "\<exists>i. snd (minimax_result ai hu b p mx d al be) = Val i \<and> i < length b \<and> b ! i = Null"
proof -
  let ?es = "getEmptyIndices b"
  have ne: "?es \<noteq> []" using assms by (simp add: terminal_def)
  have "snd (loop_result ai hu p mx d ?es b (if mx then NegInf else PosInf, Val (hd ?es)) al be)
          \<in> insert (Val (hd ?es)) (Val ` set ?es)"
    using loop_result_index[of ?es b ai hu p mx d "(if mx then NegInf else PosInf, Val (hd ?es))" al be]
    by (simp add: set_getEmptyIndices)
  then have "snd (minimax_result ai hu b p mx d al be) \<in> Val ` set ?es"
    using ne assms by (auto simp: minimax_result_node)
  then show ?thesis by (auto simp: set_getEmptyIndices)
qed

text \<open>
  Claim C9 as stated fails: a board with empty cells on which a line is already complete
  makes \<open>minimax\<close> return at once, with index \<open>null\<close>.
\<close>

theorem getOptimalMove_null_counterexample:
  "getEmptyIndices (board c9_state) \<noteq> [] \<and> fst (getOptimalMove c9_state) = Null"
  by code_simp

text \<open>
  Claim C9 (as amended).  On a board with an empty cell on which neither player has a
  complete line, the root call of \<open>minimax\<close> returns an index that is not \<open>null\<close> and is an
  empty cell of the board; \<open>getOptimalMove\<close> returns that index.
\<close>

theorem getOptimalMove_empty_cell:
  assumes "getEmptyIndices (board st) \<noteq> []"
      and "\<not> checkForWin (aiPlayer st) (board st)" and "\<not> checkForWin (humanPlayer st) (board st)"
  shows "\<exists>i. fst (getOptimalMove st) = Val i \<and> i < length (board st) \<and> board st ! i = Null
             \<and> snd (fst (minimax (aiPlayer st) (humanPlayer st) (board st) (aiPlayer st) True 0 NegInf PosInf)) = Val i"
proof -
  have "\<not> terminal (aiPlayer st) (humanPlayer st) (board st) 0"
    using assms by (simp add: terminal_def)
  from minimax_result_index[OF this, of "aiPlayer st" True NegInf PosInf]
  show ?thesis
    by (auto simp: getOptimalMove_def minimax_result_def split: prod.splits)
qed

theorem getOptimalMove_empty_cell_witness:
  "getEmptyIndices (board c6_state) \<noteq> []
   \<and> \<not> checkForWin (aiPlayer c6_state) (board c6_state)
   \<and> \<not> checkForWin (humanPlayer c6_state) (board c6_state)
   \<and> (\<exists>i. fst (getOptimalMove c6_state) = Val i \<and> i < length (board c6_state) \<and> board c6_state ! i = Null)"
proof -
  have a: "getEmptyIndices (board c6_state) \<noteq> []" by code_simp
  have b: "\<not> checkForWin (aiPlayer c6_state) (board c6_state)" by code_simp
  have c: "\<not> checkForWin (humanPlayer c6_state) (board c6_state)" by code_simp
  from getOptimalMove_empty_cell[OF a b c] a b c show ?thesis by blast
qed

subsection \<open>Alpha-beta returns the move of the unpruned search\<close>

lemma unpruned_fold_simps:
  "unpruned_fold ai hu b p mx d best [] = best"
  "unpruned_fold ai hu b p mx d best (i # es) =
     unpruned_fold ai hu b p mx d (ab_step mx best i (unpruned_child ai hu b p mx d i)) es"
  by (simp_all add: unpruned_fold_def)

lemma unpruned_node_fold:
  "\<not> terminal ai hu b d \<Longrightarrow>
   minimax_unpruned ai hu b p mx d =
     unpruned_fold ai hu b p mx d (if mx then NegInf else PosInf, Val (hd (getEmptyIndices b)))
       (getEmptyIndices b)"
  by (simp add: unpruned_node unpruned_fold_def unpruned_child_def)

lemma fst_ab_step: "fst (ab_step mx best i r) = (if mx then max (fst best) r else min (fst best) r)"
  by (auto simp: ab_step_def max_def min_def)

lemma unpruned_fold_mono:
  "mx \<Longrightarrow> fst best \<le> fst (unpruned_fold ai hu b p mx d best es)"
  "\<not> mx \<Longrightarrow> fst (unpruned_fold ai hu b p mx d best es) \<le> fst best"
proof (induction es arbitrary: best)
  case Nil
  { case 1 then show ?case by (simp add: unpruned_fold_simps) }
  { case 2 then show ?case by (simp add: unpruned_fold_simps) }
next
  case (Cons i es)
  { case 1
    have "fst best \<le> fst (ab_step mx best i (unpruned_child ai hu b p mx d i))"
      using 1 by (simp add: fst_ab_step)
    also have "\<dots> \<le> fst (unpruned_fold ai hu b p mx d (ab_step mx best i (unpruned_child ai hu b p mx d i)) es)"
      using 1 by (rule Cons.IH(1))
    finally show ?case by (simp add: unpruned_fold_simps) }
  { case 2
    have "fst (unpruned_fold ai hu b p mx d (ab_step mx best i (unpruned_child ai hu b p mx d i)) es)
            \<le> fst (ab_step mx best i (unpruned_child ai hu b p mx d i))"
      using 2 by (rule Cons.IH(2))
    also have "\<dots> \<le> fst best" using 2 by (simp add: fst_ab_step)
    finally show ?case by (simp add: unpruned_fold_simps) }
qed

lemma NegInf_least [simp]: "NegInf \<le> x"
  by simp

lemma PosInf_greatest [simp]: "x \<le> PosInf"
  by (cases x) simp_all

lemma score_extremes [simp]:
  "max x NegInf = x" "max NegInf x = x" "min x PosInf = x" "min PosInf x = x"
  "x \<le> NegInf \<longleftrightarrow> x = NegInf" "PosInf \<le> x \<longleftrightarrow> x = PosInf"
  "\<not> x < NegInf" "\<not> PosInf < x"
  by (cases x; simp add: max_def min_def less_score_def)+

lemma window_bounds_refl: "window_bounds a b v v"
  by (simp add: window_bounds_def)

lemma loop_window_max:
  assumes child: "\<And>b' p' al' be'. al' < be' \<Longrightarrow>
            window_bounds al' be' (fst (minimax_unpruned ai hu b' p' False (d + 1)))
                             (fst (minimax_result ai hu b' p' False (d + 1) al' be'))"
  shows "(\<forall>i \<in> set es. i < length b \<and> b ! i = Null)
     \<Longrightarrow> al < be \<Longrightarrow> al = max a0 (fst bestS) \<Longrightarrow> fst bestU \<le> fst bestS
     \<Longrightarrow> (a0 < fst bestS \<longrightarrow> fst bestS = fst bestU)
     \<Longrightarrow> window_bounds a0 be (fst (unpruned_fold ai hu b p True d bestU es))
                        (fst (loop_result ai hu p True d es b bestS al be))"
proof (induction es arbitrary: bestS bestU al)
  case Nil
  then show ?case
    by (auto simp: loop_result_Nil unpruned_fold_simps window_bounds_def)
next
  case (Cons i rest)
  have i: "i < length b" "b ! i = Null" and rest: "\<forall>i \<in> set rest. i < length b \<and> b ! i = Null"
    using Cons.prems(1) by simp_all
  define v where "v = unpruned_child ai hu b p True d i"
  define r where "r = fst (minimax_result ai hu (setCell b i (Val p)) hu False (d + 1) al be)"
  define bestS' where "bestS' = ab_step True bestS i r"
  define bestU' where "bestU' = ab_step True bestU i v"
  have fb: "window_bounds al be v r"
    using child[OF Cons.prems(2), of "setCell b i (Val p)" hu]
    by (simp add: v_def r_def unpruned_child_def)
  have fS: "fst bestS' = max (fst bestS) r" and fU: "fst bestU' = max (fst bestU) v"
    by (simp_all add: bestS'_def bestU'_def fst_ab_step)
  have U: "unpruned_fold ai hu b p True d bestU (i # rest) = unpruned_fold ai hu b p True d bestU' rest"
    by (simp add: unpruned_fold_simps bestU'_def v_def)
  have L: "loop_result ai hu p True d (i # rest) b bestS al be =
             (if be \<le> max al r then bestS' else loop_result ai hu p True d rest b bestS' (max al r) be)"
    by (simp add: loop_result_Cons[OF i] Let_def r_def bestS'_def)
  show ?case
  proof (cases "be \<le> max al r")
    case True
    then have ber: "be \<le> r" using Cons.prems(2) by (auto simp: max_def split: if_splits)
    then have rv: "r \<le> v" using fb by (simp add: window_bounds_def)
    have "v \<le> fst bestU'" by (simp add: fU)
    also have "\<dots> \<le> fst (unpruned_fold ai hu b p True d bestU' rest)"
      by (rule unpruned_fold_mono(1)) simp
    finally have vU: "v \<le> fst (unpruned_fold ai hu b p True d bestU' rest)" .
    have "fst bestS \<le> al" using Cons.prems(3) by simp
    then have "fst bestS' = r" using fS ber Cons.prems(2) by (auto simp: max_def)
    moreover have "a0 < be" using Cons.prems(2,3) by simp
    ultimately show ?thesis
      using True ber rv vU unfolding U L by (auto simp: window_bounds_def)
  next
    case False
    then have lt: "max al r < be" by (simp add: not_le)
    then have rb: "r < be" by simp
    have vr: "v \<le> r" using fb rb Cons.prems(2) by (auto simp: window_bounds_def)
    have 1: "max al r = max a0 (fst bestS')" using Cons.prems(3) fS by (simp add: max.assoc)
    have 2: "fst bestU' \<le> fst bestS'" using fS fU vr Cons.prems(4) by (auto simp: max_def)
    have 3: "a0 < fst bestS' \<longrightarrow> fst bestS' = fst bestU'"
    proof
      assume a: "a0 < fst bestS'"
      show "fst bestS' = fst bestU'"
      proof (cases "fst bestS < r")
        case True
        then have "al < r" using a fS Cons.prems(3) by (auto simp: max_def split: if_splits)
        then have "r = v" using fb rb by (auto simp: window_bounds_def)
        then show ?thesis using True fS fU Cons.prems(4) by (auto simp: max_def)
      next
        case False
        then have e: "fst bestS' = fst bestS" using fS by (auto simp: max_def)
        then have "fst bestS = fst bestU" using a Cons.prems(5) by simp
        then show ?thesis using e fU vr False by (auto simp: max_def)
      qed
    qed
    show ?thesis
      using Cons.IH[OF rest lt 1 2 3] False unfolding U L by simp
  qed
qed

lemma loop_window_min:
  assumes child: "\<And>b' p' al' be'. al' < be' \<Longrightarrow>
            window_bounds al' be' (fst (minimax_unpruned ai hu b' p' True (d + 1)))
                             (fst (minimax_result ai hu b' p' True (d + 1) al' be'))"
  shows "(\<forall>i \<in> set es. i < length b \<and> b ! i = Null)
     \<Longrightarrow> al < be \<Longrightarrow> be = min b0 (fst bestS) \<Longrightarrow> fst bestS \<le> fst bestU
     \<Longrightarrow> (fst bestS < b0 \<longrightarrow> fst bestS = fst bestU)
     \<Longrightarrow> window_bounds al b0 (fst (unpruned_fold ai hu b p False d bestU es))
                        (fst (loop_result ai hu p False d es b bestS al be))"
proof (induction es arbitrary: bestS bestU be)
  case Nil
  then show ?case
    by (auto simp: loop_result_Nil unpruned_fold_simps window_bounds_def)
next
  case (Cons i rest)
  have i: "i < length b" "b ! i = Null" and rest: "\<forall>i \<in> set rest. i < length b \<and> b ! i = Null"
    using Cons.prems(1) by simp_all
  define v where "v = unpruned_child ai hu b p False d i"
  define r where "r = fst (minimax_result ai hu (setCell b i (Val p)) ai True (d + 1) al be)"
  define bestS' where "bestS' = ab_step False bestS i r"
  define bestU' where "bestU' = ab_step False bestU i v"
  have fb: "window_bounds al be v r"
    using child[OF Cons.prems(2), of "setCell b i (Val p)" ai]
    by (simp add: v_def r_def unpruned_child_def)
  have fS: "fst bestS' = min (fst bestS) r" and fU: "fst bestU' = min (fst bestU) v"
    by (simp_all add: bestS'_def bestU'_def fst_ab_step)
  have U: "unpruned_fold ai hu b p False d bestU (i # rest) = unpruned_fold ai hu b p False d bestU' rest"
    by (simp add: unpruned_fold_simps bestU'_def v_def)
  have L: "loop_result ai hu p False d (i # rest) b bestS al be =
             (if min be r \<le> al then bestS' else loop_result ai hu p False d rest b bestS' al (min be r))"
    by (simp add: loop_result_Cons[OF i] Let_def r_def bestS'_def)
  show ?case
  proof (cases "min be r \<le> al")
    case True
    then have ber: "r \<le> al" using Cons.prems(2) by (auto simp: min_def split: if_splits)
    then have rv: "v \<le> r" using fb by (simp add: window_bounds_def)
    have "fst (unpruned_fold ai hu b p False d bestU' rest) \<le> fst bestU'"
      by (rule unpruned_fold_mono(2)) simp
    also have "\<dots> \<le> v" by (simp add: fU)
    finally have vU: "fst (unpruned_fold ai hu b p False d bestU' rest) \<le> v" .
    have "be \<le> fst bestS" using Cons.prems(3) by simp
    then have "fst bestS' = r" using fS ber Cons.prems(2) by (auto simp: min_def)
    moreover have "al < b0" using Cons.prems(2,3) by simp
    ultimately show ?thesis
      using True ber rv vU unfolding U L by (auto simp: window_bounds_def)
  next
    case False
    then have lt: "al < min be r" by (simp add: not_le)
    then have rb: "al < r" by simp
    have vr: "r \<le> v" using fb rb Cons.prems(2) by (auto simp: window_bounds_def)
    have 1: "min be r = min b0 (fst bestS')" using Cons.prems(3) fS by (simp add: min.assoc)
    have 2: "fst bestS' \<le> fst bestU'" using fS fU vr Cons.prems(4) by (auto simp: min_def)
    have 3: "fst bestS' < b0 \<longrightarrow> fst bestS' = fst bestU'"
    proof
      assume a: "fst bestS' < b0"
      show "fst bestS' = fst bestU'"
      proof (cases "r < fst bestS")
        case True
        then have "r < be" using a fS Cons.prems(3) by (auto simp: min_def split: if_splits)
        then have "r = v" using fb rb by (auto simp: window_bounds_def)
        then show ?thesis using True fS fU Cons.prems(4) by (auto simp: min_def)
      next
        case False
        then have e: "fst bestS' = fst bestS" using fS by (auto simp: min_def)
        then have "fst bestS = fst bestU" using a Cons.prems(5) by simp
        then show ?thesis using e fU vr False by (auto simp: min_def)
      qed
    qed
    show ?thesis
      using Cons.IH[OF rest lt 1 2 3] False unfolding U L by simp
  qed
qed

lemma minimax_window:
  "al < be \<Longrightarrow> window_bounds al be (fst (minimax_unpruned ai hu b p mx d))
                             (fst (minimax_result ai hu b p mx d al be))"
proof (induction "9 - d" arbitrary: d b p mx al be)
  case 0
  then have "terminal ai hu b d" by (simp add: terminal_def)
  then show ?case by (simp add: minimax_result_terminal unpruned_terminal window_bounds_refl)
next
  case (Suc n)
  show ?case
  proof (cases "terminal ai hu b d")
    case True
    then show ?thesis by (simp add: minimax_result_terminal unpruned_terminal window_bounds_refl)
  next
    case False
    have n: "n = 9 - (d + 1)" using Suc.hyps(2) by simp
    have es: "\<forall>i \<in> set (getEmptyIndices b). i < length b \<and> b ! i = Null"
      by (simp add: set_getEmptyIndices)
    show ?thesis
    proof (cases mx)
      case True
      have "window_bounds al be
              (fst (unpruned_fold ai hu b p True d (NegInf, Val (hd (getEmptyIndices b))) (getEmptyIndices b)))
              (fst (loop_result ai hu p True d (getEmptyIndices b) b (NegInf, Val (hd (getEmptyIndices b))) al be))"
        by (rule loop_window_max[OF Suc.hyps(1)[OF n] es Suc.prems]) simp_all
      then show ?thesis using False True by (simp add: minimax_result_node unpruned_node_fold)
    next
      case mn: False
      have "window_bounds al be
              (fst (unpruned_fold ai hu b p False d (PosInf, Val (hd (getEmptyIndices b))) (getEmptyIndices b)))
              (fst (loop_result ai hu p False d (getEmptyIndices b) b (PosInf, Val (hd (getEmptyIndices b))) al be))"
        by (rule loop_window_min[OF Suc.hyps(1)[OF n] es Suc.prems]) simp_all
      then show ?thesis using False mn by (simp add: minimax_result_node unpruned_node_fold)
    qed
  qed
qed

lemma unpruned_score_eq:
  "fst (minimax_unpruned ai hu b p mx d) = fst (minimax_result ai hu b p mx d NegInf PosInf)"
proof -
  obtain x where x: "fst (minimax_result ai hu b p mx d NegInf PosInf) = Fin x"
    using minimax_result_finite by blast
  have "window_bounds NegInf PosInf (fst (minimax_unpruned ai hu b p mx d)) (Fin x)"
    using minimax_window[of NegInf PosInf ai hu b p mx d] x by (simp add: less_score_def)
  then show ?thesis using x by (simp add: window_bounds_def less_score_def)
qed

lemma unpruned_finite: "\<exists>x. fst (minimax_unpruned ai hu b p mx d) = Fin x"
  using minimax_result_finite by (simp add: unpruned_score_eq)

lemma root_loop_eq:
  "(\<forall>i \<in> set es. i < length b \<and> b ! i = Null) \<Longrightarrow> fst bestS \<noteq> PosInf
   \<Longrightarrow> loop_result ai hu p True d es b bestS (fst bestS) PosInf
       = unpruned_fold ai hu b p True d bestS es"
proof (induction es arbitrary: bestS)
  case Nil
  then show ?case by (simp add: loop_result_Nil unpruned_fold_simps)
next
  case (Cons i rest)
  have i: "i < length b" "b ! i = Null" and rest: "\<forall>i \<in> set rest. i < length b \<and> b ! i = Null"
    using Cons.prems(1) by simp_all
  define v where "v = unpruned_child ai hu b p True d i"
  define r where "r = fst (minimax_result ai hu (setCell b i (Val p)) hu False (d + 1) (fst bestS) PosInf)"
  obtain x where x: "r = Fin x" unfolding r_def using minimax_result_finite by blast
  have lt: "fst bestS < PosInf" using Cons.prems(2) by (cases "fst bestS") (simp_all add: less_score_def)
  have fb: "window_bounds (fst bestS) PosInf v r"
    using minimax_window[OF lt, of ai hu "setCell b i (Val p)" hu False "d + 1"]
    by (simp add: v_def r_def unpruned_child_def)
  have same: "ab_step True bestS i r = ab_step True bestS i v"
  proof (cases "fst bestS < r")
    case True
    then have "r = v" using fb x by (simp add: window_bounds_def less_score_def)
    then show ?thesis by simp
  next
    case False
    then have "r \<le> fst bestS" by (simp add: not_less)
    then have "v \<le> r" using fb by (simp add: window_bounds_def)
    then have "\<not> fst bestS < v" using \<open>r \<le> fst bestS\<close> by auto
    then show ?thesis using False by (simp add: ab_step_def)
  qed
  have nocut: "\<not> PosInf \<le> max (fst bestS) r" using x Cons.prems(2) by (simp add: max_def)
  have al: "max (fst bestS) r = fst (ab_step True bestS i r)" by (simp add: fst_ab_step)
  have ne: "fst (ab_step True bestS i r) \<noteq> PosInf" using nocut al by simp
  have "loop_result ai hu p True d (i # rest) b bestS (fst bestS) PosInf
        = loop_result ai hu p True d rest b (ab_step True bestS i r) (fst (ab_step True bestS i r)) PosInf"
    using nocut al by (simp add: loop_result_Cons[OF i] Let_def r_def del: score_extremes)
  also have "\<dots> = unpruned_fold ai hu b p True d (ab_step True bestS i r) rest"
    by (rule Cons.IH[OF rest ne])
  also have "\<dots> = unpruned_fold ai hu b p True d bestS (i # rest)"
    by (simp add: unpruned_fold_simps same v_def)
  finally show ?case .
qed

lemma minimax_root_unpruned:
  "minimax_result ai hu b p True d NegInf PosInf = minimax_unpruned ai hu b p True d"
proof (cases "terminal ai hu b d")
  case True
  then show ?thesis by (simp add: minimax_result_terminal unpruned_terminal)
next
  case False
  have "loop_result ai hu p True d (getEmptyIndices b) b (NegInf, Val (hd (getEmptyIndices b)))
          (fst (NegInf, Val (hd (getEmptyIndices b)))) PosInf
        = unpruned_fold ai hu b p True d (NegInf, Val (hd (getEmptyIndices b))) (getEmptyIndices b)"
    by (rule root_loop_eq) (simp_all add: set_getEmptyIndices)
  then show ?thesis using False by (simp add: minimax_result_node unpruned_node_fold)
qed

lemma fold_first_max:
  fixes ai hu b p d
  defines "f \<equiv> unpruned_child ai hu b p True d"
  shows "(unpruned_fold ai hu b p True d best es = best \<and> (\<forall>j \<in> set es. f j \<le> fst best))
       \<or> (\<exists>i \<in> set es. unpruned_fold ai hu b p True d best es = (f i, Val i) \<and> fst best < f i
              \<and> (\<forall>j \<in> set es. f j \<le> f i) \<and> (\<forall>j \<in> set (takeWhile (\<lambda>j. j \<noteq> i) es). f j < f i))"
proof (induction es arbitrary: best)
  case Nil
  then show ?case by (simp add: unpruned_fold_simps)
next
  case (Cons i0 rest)
  let ?best' = "ab_step True best i0 (f i0)"
  have U: "unpruned_fold ai hu b p True d best (i0 # rest) = unpruned_fold ai hu b p True d ?best' rest"
    by (simp add: unpruned_fold_simps f_def)
  show ?case
  proof (cases "fst best < f i0")
    case True
    then have b': "?best' = (f i0, Val i0)" by (simp add: ab_step_def)
    from Cons.IH[of ?best'] show ?thesis
    proof
      assume "unpruned_fold ai hu b p True d ?best' rest = ?best' \<and> (\<forall>j \<in> set rest. f j \<le> fst ?best')"
      then show ?thesis using True b' U by auto
    next
      assume "\<exists>i \<in> set rest. unpruned_fold ai hu b p True d ?best' rest = (f i, Val i) \<and> fst ?best' < f i
              \<and> (\<forall>j \<in> set rest. f j \<le> f i) \<and> (\<forall>j \<in> set (takeWhile (\<lambda>j. j \<noteq> i) rest). f j < f i)"
      then obtain i where i: "i \<in> set rest" "unpruned_fold ai hu b p True d ?best' rest = (f i, Val i)"
         "fst ?best' < f i" "\<forall>j \<in> set rest. f j \<le> f i" "\<forall>j \<in> set (takeWhile (\<lambda>j. j \<noteq> i) rest). f j < f i"
        by blast
      have lt: "f i0 < f i" using i(3) b' by simp
      then have "i0 \<noteq> i" by auto
      then show ?thesis using i lt True U by (intro disjI2 bexI[of _ i]) auto
    qed
  next
    case False
    then have b': "?best' = best" by (simp add: ab_step_def)
    from Cons.IH[of ?best'] show ?thesis
    proof
      assume "unpruned_fold ai hu b p True d ?best' rest = ?best' \<and> (\<forall>j \<in> set rest. f j \<le> fst ?best')"
      then show ?thesis using False b' U by (auto simp: not_less)
    next
      assume "\<exists>i \<in> set rest. unpruned_fold ai hu b p True d ?best' rest = (f i, Val i) \<and> fst ?best' < f i
              \<and> (\<forall>j \<in> set rest. f j \<le> f i) \<and> (\<forall>j \<in> set (takeWhile (\<lambda>j. j \<noteq> i) rest). f j < f i)"
      then obtain i where i: "i \<in> set rest" "unpruned_fold ai hu b p True d ?best' rest = (f i, Val i)"
         "fst ?best' < f i" "\<forall>j \<in> set rest. f j \<le> f i" "\<forall>j \<in> set (takeWhile (\<lambda>j. j \<noteq> i) rest). f j < f i"
        by blast
      have lt: "f i0 < f i" using i(3) b' False by (auto simp: not_less)
      then have "i0 \<noteq> i" by auto
      then show ?thesis using i lt b' U by (intro disjI2 bexI[of _ i]) auto
    qed
  qed
qed

lemma takeWhile_sorted_before:
  "sorted es \<Longrightarrow> distinct es \<Longrightarrow> i \<in> set es \<Longrightarrow> j \<in> set es \<Longrightarrow> j < i
   \<Longrightarrow> j \<in> set (takeWhile (\<lambda>j. j \<noteq> i) es)"
proof (induction es)
  case Nil
  then show ?case by simp
next
  case (Cons a es)
  show ?case
  proof (cases "a = i")
    case True
    then have "\<forall>x \<in> set es. i \<le> x" using Cons.prems(1) by simp
    then have "j \<notin> set es" using Cons.prems(5) by auto
    then show ?thesis using Cons.prems(4,5) True by auto
  next
    case False
    then show ?thesis using Cons by auto
  qed
qed

lemma sorted_getEmptyIndices: "sorted (getEmptyIndices b)"
  by (simp add: getEmptyIndices_def sorted_wrt_filter)

lemma unpruned_first_max:
  assumes "\<not> terminal ai hu b d"
  shows "\<exists>i. minimax_unpruned ai hu b p True d = (unpruned_child ai hu b p True d i, Val i)
           \<and> i < length b \<and> b ! i = Null
           \<and> (\<forall>j. j < length b \<and> b ! j = Null \<longrightarrow> unpruned_child ai hu b p True d j \<le> unpruned_child ai hu b p True d i)
           \<and> (\<forall>j. j < length b \<and> b ! j = Null \<and> j < i \<longrightarrow> unpruned_child ai hu b p True d j < unpruned_child ai hu b p True d i)"
proof -
  let ?es = "getEmptyIndices b"
  let ?f = "unpruned_child ai hu b p True d"
  let ?best = "(NegInf, Val (hd ?es))"
  have ne: "?es \<noteq> []" using assms by (simp add: terminal_def)
  then obtain j0 where j0: "j0 \<in> set ?es" by (cases ?es) auto
  obtain x where "?f j0 = Fin x"
    using unpruned_finite[of ai hu "setCell b j0 (Val p)" hu False "d + 1"]
    by (auto simp: unpruned_child_def)
  then have "\<not> ?f j0 \<le> fst ?best" by simp
  then have "\<not> (\<forall>j \<in> set ?es. ?f j \<le> fst ?best)" using j0 by blast
  with fold_first_max[of ai hu b p d ?best ?es]
  obtain i where i: "i \<in> set ?es" "unpruned_fold ai hu b p True d ?best ?es = (?f i, Val i)"
      "\<forall>j \<in> set ?es. ?f j \<le> ?f i" "\<forall>j \<in> set (takeWhile (\<lambda>j. j \<noteq> i) ?es). ?f j < ?f i"
    by blast
  have "?f j < ?f i" if "j < length b \<and> b ! j = Null \<and> j < i" for j
    using takeWhile_sorted_before[OF sorted_getEmptyIndices distinct_getEmptyIndices i(1), of j] i(4) that
    by (simp add: set_getEmptyIndices)
  then show ?thesis
    using i(1,2,3) assms by (auto simp: unpruned_node_fold set_getEmptyIndices)
qed

lemma getOptimalMove_index:
  "fst (getOptimalMove st)
     = snd (minimax_result (aiPlayer st) (humanPlayer st) (board st) (aiPlayer st) True 0 NegInf PosInf)"
  by (simp add: getOptimalMove_def minimax_result_def split_beta)

text \<open>
  Claim C3.  On a board with an empty cell, the index selected by \<open>getOptimalMove\<close> (alpha-beta
  with the cutoff \<open>beta <= alpha\<close>) is the index selected by the unpruned minimax with the
  same depth-adjusted scores; the root call returns the same score too.  When no line is
  complete, that index is an empty cell whose unpruned value is maximal among the empty
  cells and strictly larger than the value of every empty cell before it: the first index
  in ascending order that achieves the optimum.
\<close>

theorem alpha_beta_selects_unpruned_move:
  assumes "getEmptyIndices (board st) \<noteq> []"
  shows "fst (getOptimalMove st)
           = snd (minimax_unpruned (aiPlayer st) (humanPlayer st) (board st) (aiPlayer st) True 0)
       \<and> fst (minimax (aiPlayer st) (humanPlayer st) (board st) (aiPlayer st) True 0 NegInf PosInf)
           = minimax_unpruned (aiPlayer st) (humanPlayer st) (board st) (aiPlayer st) True 0
       \<and> (\<not> checkForWin (aiPlayer st) (board st) \<and> \<not> checkForWin (humanPlayer st) (board st) \<longrightarrow>
            (\<exists>i. fst (getOptimalMove st) = Val i \<and> i < length (board st) \<and> board st ! i = Null
               \<and> (\<forall>j. j < length (board st) \<and> board st ! j = Null \<longrightarrow>
                     fst (minimax_unpruned (aiPlayer st) (humanPlayer st)
                            (setCell (board st) j (Val (aiPlayer st))) (humanPlayer st) False 1)
                     \<le> fst (minimax_unpruned (aiPlayer st) (humanPlayer st)
                            (setCell (board st) i (Val (aiPlayer st))) (humanPlayer st) False 1))
               \<and> (\<forall>j. j < length (board st) \<and> board st ! j = Null \<and> j < i \<longrightarrow>
                     fst (minimax_unpruned (aiPlayer st) (humanPlayer st)
                            (setCell (board st) j (Val (aiPlayer st))) (humanPlayer st) False 1)
                     < fst (minimax_unpruned (aiPlayer st) (humanPlayer st)
                            (setCell (board st) i (Val (aiPlayer st))) (humanPlayer st) False 1))))"
proof -
  let ?ai = "aiPlayer st" and ?hu = "humanPlayer st" and ?b = "board st"
  have eq: "fst (minimax ?ai ?hu ?b ?ai True 0 NegInf PosInf) = minimax_unpruned ?ai ?hu ?b ?ai True 0"
    using minimax_root_unpruned[of ?ai ?hu ?b ?ai 0] by (simp add: minimax_result_def)
  have opt: "fst (getOptimalMove st) = snd (minimax_unpruned ?ai ?hu ?b ?ai True 0)"
    using eq by (simp add: getOptimalMove_index minimax_result_def)
  have "\<exists>i. fst (getOptimalMove st) = Val i \<and> i < length ?b \<and> ?b ! i = Null
           \<and> (\<forall>j. j < length ?b \<and> ?b ! j = Null \<longrightarrow>
                 unpruned_child ?ai ?hu ?b ?ai True 0 j \<le> unpruned_child ?ai ?hu ?b ?ai True 0 i)
           \<and> (\<forall>j. j < length ?b \<and> ?b ! j = Null \<and> j < i \<longrightarrow>
                 unpruned_child ?ai ?hu ?b ?ai True 0 j < unpruned_child ?ai ?hu ?b ?ai True 0 i)"
    if "\<not> checkForWin ?ai ?b \<and> \<not> checkForWin ?hu ?b"
  proof -
    have "\<not> terminal ?ai ?hu ?b 0" using that assms by (simp add: terminal_def)
    from unpruned_first_max[OF this, of ?ai] show ?thesis
      unfolding opt by auto
  qed
  then show ?thesis using eq opt by (simp add: unpruned_child_def)
qed

theorem alpha_beta_selects_unpruned_move_witness:
  "getEmptyIndices (board c6_state) \<noteq> []
   \<and> \<not> checkForWin (aiPlayer c6_state) (board c6_state)
   \<and> \<not> checkForWin (humanPlayer c6_state) (board c6_state)
   \<and> snd (minimax_unpruned (aiPlayer c6_state) (humanPlayer c6_state) (board c6_state)
            (aiPlayer c6_state) True 0) = Val 5"
proof -
  have a: "getEmptyIndices (board c6_state) \<noteq> []" by code_simp
  have b: "\<not> checkForWin (aiPlayer c6_state) (board c6_state)" by code_simp
  have c: "\<not> checkForWin (humanPlayer c6_state) (board c6_state)" by code_simp
  from alpha_beta_selects_unpruned_move[OF a] c6_optimal a b c show ?thesis by simp
qed

subsection \<open>Lines, placements and the values of root moves\<close>

lemma cellAt_setCell:
  "i < length b \<Longrightarrow> cellAt (setCell b i v) k = (if k = i then v else cellAt b k)"
  by (simp add: cellAt_def setCell_def)

lemma length_setCell: "i < length b \<Longrightarrow> length (setCell b i v) = length b"
  by (simp add: setCell_def)

lemma checkForWin_iff:
  "checkForWin p b \<longleftrightarrow> (\<exists>combo \<in> set WINNING_COMBINATIONS. \<forall>k \<in> set combo. cellAt b k = Val p)"
  by (simp add: checkForWin_def list_ex_iff list_all_iff)

lemma winning_combination_shape:
  "combo \<in> set WINNING_COMBINATIONS \<Longrightarrow> \<exists>x y z. combo = [x, y, z] \<and> x \<noteq> y \<and> x \<noteq> z \<and> y \<noteq> z"
  by (auto simp: WINNING_COMBINATIONS_def)

lemma completable_triple:
  "completable b p [x, y, z] \<longleftrightarrow>
     (cellAt b x = Val p \<and> cellAt b y = Val p \<and> cellAt b z = Null)
   \<or> (cellAt b x = Val p \<and> cellAt b y = Null \<and> cellAt b z = Val p)
   \<or> (cellAt b x = Null \<and> cellAt b y = Val p \<and> cellAt b z = Val p)"
  by (auto simp: completable_def Let_def)

lemma checkForWin_other:
  assumes "q \<noteq> p" "i < length b" "checkForWin p (setCell b i (Val q))"
  shows "checkForWin p b"
proof -
  from assms(3) obtain combo where c: "combo \<in> set WINNING_COMBINATIONS"
      "\<forall>k \<in> set combo. cellAt (setCell b i (Val q)) k = Val p"
    by (auto simp: checkForWin_iff)
  have "cellAt b k = Val p" if "k \<in> set combo" for k
    using c(2) that assms(1,2) by (auto simp: cellAt_setCell split: if_splits)
  then show ?thesis using c(1) by (auto simp: checkForWin_iff)
qed

lemma checkForWin_placed:
  assumes "i < length b" "b ! i = Null" "\<not> checkForWin p b"
  shows "checkForWin p (setCell b i (Val p))
         \<longleftrightarrow> (\<exists>combo \<in> set WINNING_COMBINATIONS. completable b p combo \<and> i \<in> set combo)"
proof
  assume "checkForWin p (setCell b i (Val p))"
  then obtain combo where c: "combo \<in> set WINNING_COMBINATIONS"
      "\<forall>k \<in> set combo. cellAt (setCell b i (Val p)) k = Val p"
    by (auto simp: checkForWin_iff)
  obtain x y z where s: "combo = [x, y, z]" "x \<noteq> y" "x \<noteq> z" "y \<noteq> z"
    using winning_combination_shape[OF c(1)] by blast
  have n: "\<not> (\<forall>k \<in> set combo. cellAt b k = Val p)"
    using assms(3) c(1) by (auto simp: checkForWin_iff)
  have i: "cellAt b i = Null" using assms(1,2) by (simp add: cellAt_def)
  have "completable b p combo \<and> i \<in> set combo"
    using c(2) n i s assms(1) by (auto simp: completable_triple cellAt_setCell split: if_splits)
  then show "\<exists>combo \<in> set WINNING_COMBINATIONS. completable b p combo \<and> i \<in> set combo"
    using c(1) by blast
next
  assume "\<exists>combo \<in> set WINNING_COMBINATIONS. completable b p combo \<and> i \<in> set combo"
  then obtain combo where c: "combo \<in> set WINNING_COMBINATIONS" "completable b p combo" "i \<in> set combo"
    by blast
  obtain x y z where s: "combo = [x, y, z]" "x \<noteq> y" "x \<noteq> z" "y \<noteq> z"
    using winning_combination_shape[OF c(1)] by blast
  have i: "cellAt b i = Null" using assms(1,2) by (simp add: cellAt_def)
  have "\<forall>k \<in> set combo. cellAt (setCell b i (Val p)) k = Val p"
    using c(2,3) i s assms(1) by (auto simp: completable_triple cellAt_setCell)
  then show "checkForWin p (setCell b i (Val p))"
    using c(1) by (auto simp: checkForWin_iff)
qed

lemma completable_unchanged:
  assumes "j < length b" "j \<notin> set combo"
  shows "completable (setCell b j v) p combo = completable b p combo"
proof -
  have "map (cellAt (setCell b j v)) combo = map (cellAt b) combo"
    using assms by (auto simp: cellAt_setCell)
  then show ?thesis unfolding completable_def by (simp only:)
qed

lemma completable_blocked:
  assumes "combo \<in> set WINNING_COMBINATIONS" "c \<in> set combo" "c < length b" "q \<noteq> p"
  shows "\<not> completable (setCell b c (Val q)) p combo"
proof -
  obtain x y z where s: "combo = [x, y, z]" "x \<noteq> y" "x \<noteq> z" "y \<noteq> z"
    using winning_combination_shape[OF assms(1)] by blast
  show ?thesis using assms(2,3,4) s by (auto simp: completable_triple cellAt_setCell)
qed

lemma completable_single_empty:
  assumes "combo \<in> set WINNING_COMBINATIONS" "completable b p combo"
      and "c \<in> set combo" "cellAt b c = Null" "j \<in> set combo" "cellAt b j = Null"
  shows "j = c"
proof -
  obtain x y z where s: "combo = [x, y, z]" "x \<noteq> y" "x \<noteq> z" "y \<noteq> z"
    using winning_combination_shape[OF assms(1)] by blast
  show ?thesis using assms(2-) s by (auto simp: completable_triple)
qed

lemma unpruned_fold_upper:
  "(\<forall>k \<in> set es. unpruned_child ai hu b p mx d k \<le> B) \<Longrightarrow> fst best \<le> B
   \<Longrightarrow> mx \<Longrightarrow> fst (unpruned_fold ai hu b p mx d best es) \<le> B"
  by (induction es arbitrary: best) (simp_all add: unpruned_fold_simps fst_ab_step)

lemma unpruned_fold_lower:
  "(\<forall>k \<in> set es. L \<le> unpruned_child ai hu b p mx d k) \<Longrightarrow> L \<le> fst best
   \<Longrightarrow> \<not> mx \<Longrightarrow> L \<le> fst (unpruned_fold ai hu b p mx d best es)"
  by (induction es arbitrary: best) (simp_all add: unpruned_fold_simps fst_ab_step)

lemma unpruned_fold_ge_member:
  "k \<in> set es \<Longrightarrow> mx \<Longrightarrow> unpruned_child ai hu b p mx d k \<le> fst (unpruned_fold ai hu b p mx d best es)"
proof (induction es arbitrary: best)
  case Nil
  then show ?case by simp
next
  case (Cons i es)
  show ?case
  proof (cases "k = i")
    case True
    have "unpruned_child ai hu b p mx d i \<le> fst (ab_step mx best i (unpruned_child ai hu b p mx d i))"
      using Cons.prems(2) by (simp add: fst_ab_step)
    also have "\<dots> \<le> fst (unpruned_fold ai hu b p mx d (ab_step mx best i (unpruned_child ai hu b p mx d i)) es)"
      using Cons.prems(2) by (rule unpruned_fold_mono(1))
    finally show ?thesis using True by (simp add: unpruned_fold_simps)
  next
    case False
    then show ?thesis using Cons by (simp add: unpruned_fold_simps)
  qed
qed

lemma unpruned_fold_le_member:
  "k \<in> set es \<Longrightarrow> \<not> mx \<Longrightarrow> fst (unpruned_fold ai hu b p mx d best es) \<le> unpruned_child ai hu b p mx d k"
proof (induction es arbitrary: best)
  case Nil
  then show ?case by simp
next
  case (Cons i es)
  show ?case
  proof (cases "k = i")
    case True
    have "fst (unpruned_fold ai hu b p mx d (ab_step mx best i (unpruned_child ai hu b p mx d i)) es)
            \<le> fst (ab_step mx best i (unpruned_child ai hu b p mx d i))"
      using Cons.prems(2) by (rule unpruned_fold_mono(2))
    also have "\<dots> \<le> unpruned_child ai hu b p mx d i"
      using Cons.prems(2) by (simp add: fst_ab_step)
    finally show ?thesis using True by (simp add: unpruned_fold_simps)
  next
    case False
    then show ?thesis using Cons by (simp add: unpruned_fold_simps)
  qed
qed

lemma leaf_move_bounds:
  "d \<le> 9 \<Longrightarrow> Fin (- 10 + int d) \<le> fst (leaf_move ai hu b d) \<and> fst (leaf_move ai hu b d) \<le> Fin (10 - int d)"
  by (simp add: leaf_move_def)

lemma unpruned_bounds:
  "d \<le> 9 \<Longrightarrow> Fin (- 10 + int d) \<le> fst (minimax_unpruned ai hu b p mx d)
              \<and> fst (minimax_unpruned ai hu b p mx d) \<le> Fin (10 - int d)"
proof (induction "9 - d" arbitrary: d b p mx)
  case 0
  then have t: "terminal ai hu b d" by (simp add: terminal_def)
  from leaf_move_bounds[OF 0(2)] show ?case by (simp only: unpruned_terminal[OF t])
next
  case (Suc n)
  show ?case
  proof (cases "terminal ai hu b d")
    case True
    from leaf_move_bounds[OF Suc.prems] show ?thesis by (simp only: unpruned_terminal[OF True])
  next
    case False
    let ?es = "getEmptyIndices b"
    have n: "n = 9 - (d + 1)" and d: "d + 1 \<le> 9" using Suc.hyps(2) by simp_all
    have ch: "Fin (- 10 + int d) \<le> unpruned_child ai hu b p mx d k
              \<and> unpruned_child ai hu b p mx d k \<le> Fin (10 - int d)" for k
    proof -
      have "Fin (- 10 + int (d + 1)) \<le> unpruned_child ai hu b p mx d k
              \<and> unpruned_child ai hu b p mx d k \<le> Fin (10 - int (d + 1))"
        unfolding unpruned_child_def by (rule Suc.hyps(1)[OF n d])
      moreover have "Fin (- 10 + int d) \<le> Fin (- 10 + int (d + 1))"
        "Fin (10 - int (d + 1)) \<le> Fin (10 - int d)" by simp_all
      ultimately show ?thesis by (meson order_trans)
    qed
    obtain k where k: "k \<in> set ?es" using False by (cases ?es) (auto simp: terminal_def)
    show ?thesis
    proof (cases mx)
      case True
      let ?r = "fst (unpruned_fold ai hu b p mx d (NegInf, Val (hd ?es)) ?es)"
      have "?r \<le> Fin (10 - int d)"
        by (rule unpruned_fold_upper) (use ch True in auto)
      moreover have "unpruned_child ai hu b p mx d k \<le> ?r"
        using k True by (rule unpruned_fold_ge_member)
      then have "Fin (- 10 + int d) \<le> ?r" using ch[of k] by (meson order_trans)
      ultimately show ?thesis using False True by (simp add: unpruned_node_fold)
    next
      case mn: False
      let ?r = "fst (unpruned_fold ai hu b p mx d (PosInf, Val (hd ?es)) ?es)"
      have "Fin (- 10 + int d) \<le> ?r"
        by (rule unpruned_fold_lower) (use ch mn in auto)
      moreover have "?r \<le> unpruned_child ai hu b p mx d k"
        using k mn by (rule unpruned_fold_le_member)
      then have "?r \<le> Fin (10 - int d)" using ch[of k] by (meson order_trans)
      ultimately show ?thesis using False mn by (simp add: unpruned_node_fold)
    qed
  qed
qed

text \<open>The value of a root move: 9 exactly when the move completes a line.\<close>

lemma root_child_win:
  "checkForWin ai (setCell b i (Val ai)) \<Longrightarrow> unpruned_child ai hu b ai True 0 i = Fin 9"
  by (simp add: unpruned_child_def unpruned_terminal terminal_def leaf_move_def)

lemma root_child_no_win:
  assumes "\<not> checkForWin ai (setCell b i (Val ai))"
  shows "unpruned_child ai hu b ai True 0 i \<le> Fin 8"
proof -
  let ?b1 = "setCell b i (Val ai)"
  show ?thesis
  proof (cases "terminal ai hu ?b1 1")
    case True
    then show ?thesis using assms
      by (simp add: unpruned_child_def unpruned_terminal leaf_move_def)
  next
    case False
    let ?es = "getEmptyIndices ?b1"
    obtain k where k: "k \<in> set ?es" using False by (cases ?es) (auto simp: terminal_def)
    have "fst (unpruned_fold ai hu ?b1 hu False 1 (PosInf, Val (hd ?es)) ?es)
            \<le> unpruned_child ai hu ?b1 hu False 1 k"
      using k by (rule unpruned_fold_le_member) simp
    also have "\<dots> \<le> Fin (10 - int (1 + 1))"
      unfolding unpruned_child_def
    proof -
      have "(1::nat) + 1 \<le> 9" by simp
      from unpruned_bounds[OF this, of ai hu "setCell ?b1 k (Val hu)" "if False then hu else ai" "\<not> False"]
      show "fst (minimax_unpruned ai hu (setCell ?b1 k (Val hu)) (if False then hu else ai)
                   (\<not> False) (1 + 1)) \<le> Fin (10 - int (1 + 1))"
        by (rule conjunct2)
    qed
    finally have "fst (unpruned_fold ai hu ?b1 hu False 1 (PosInf, Val (hd ?es)) ?es) \<le> Fin 8"
      by simp
    then show ?thesis using False by (simp add: unpruned_child_def unpruned_node_fold)
  qed
qed

lemma getOptimalMove_first_max:
  assumes "getEmptyIndices (board st) \<noteq> []"
      and "\<not> checkForWin (aiPlayer st) (board st)" "\<not> checkForWin (humanPlayer st) (board st)"
  shows "\<exists>i. fst (getOptimalMove st) = Val i \<and> i < length (board st) \<and> board st ! i = Null
           \<and> fst (minimax_result (aiPlayer st) (humanPlayer st) (board st) (aiPlayer st) True 0 NegInf PosInf)
               = unpruned_child (aiPlayer st) (humanPlayer st) (board st) (aiPlayer st) True 0 i
           \<and> (\<forall>j. j < length (board st) \<and> board st ! j = Null \<longrightarrow>
                 unpruned_child (aiPlayer st) (humanPlayer st) (board st) (aiPlayer st) True 0 j
                 \<le> unpruned_child (aiPlayer st) (humanPlayer st) (board st) (aiPlayer st) True 0 i)
           \<and> (\<forall>j. j < length (board st) \<and> board st ! j = Null \<and> j < i \<longrightarrow>
                 unpruned_child (aiPlayer st) (humanPlayer st) (board st) (aiPlayer st) True 0 j
                 < unpruned_child (aiPlayer st) (humanPlayer st) (board st) (aiPlayer st) True 0 i)"
proof -
  have "\<not> terminal (aiPlayer st) (humanPlayer st) (board st) 0"
    using assms by (simp add: terminal_def)
  from unpruned_first_max[OF this, of "aiPlayer st"] show ?thesis
    by (auto simp: getOptimalMove_index minimax_root_unpruned)
qed

lemma getOptimalMove_immediate_win:
  assumes live: "\<not> checkForWin (aiPlayer st) (board st)" "\<not> checkForWin (humanPlayer st) (board st)"
      and i: "i < length (board st)" "board st ! i = Null"
             "checkForWin (aiPlayer st) (setCell (board st) i (Val (aiPlayer st)))"
  shows "\<exists>k \<le> i. fst (getOptimalMove st) = Val k \<and> k < length (board st) \<and> board st ! k = Null
           \<and> checkForWin (aiPlayer st) (setCell (board st) k (Val (aiPlayer st)))
           \<and> fst (fst (minimax (aiPlayer st) (humanPlayer st) (board st) (aiPlayer st) True 0 NegInf PosInf)) = Fin 9
           \<and> (\<forall>j < k. j < length (board st) \<and> board st ! j = Null
                 \<longrightarrow> \<not> checkForWin (aiPlayer st) (setCell (board st) j (Val (aiPlayer st))))"
proof -
  let ?ai = "aiPlayer st" and ?hu = "humanPlayer st" and ?b = "board st"
  let ?f = "unpruned_child ?ai ?hu ?b ?ai True 0"
  have ne: "getEmptyIndices ?b \<noteq> []"
    using i(1,2) set_getEmptyIndices[of i ?b] by auto
  from getOptimalMove_first_max[OF ne live]
  obtain k where k: "fst (getOptimalMove st) = Val k" "k < length ?b" "?b ! k = Null"
      "fst (minimax_result ?ai ?hu ?b ?ai True 0 NegInf PosInf) = ?f k"
      "\<forall>j. j < length ?b \<and> ?b ! j = Null \<longrightarrow> ?f j \<le> ?f k"
      "\<forall>j. j < length ?b \<and> ?b ! j = Null \<and> j < k \<longrightarrow> ?f j < ?f k"
    by blast
  have fi: "?f i = Fin 9" using i(3) by (rule root_child_win)
  have wk: "checkForWin ?ai (setCell ?b k (Val ?ai))"
  proof (rule ccontr)
    assume "\<not> checkForWin ?ai (setCell ?b k (Val ?ai))"
    then have "?f k \<le> Fin 8" by (rule root_child_no_win)
    moreover have "Fin 9 \<le> ?f k" using k(5) i(1,2) fi by auto
    ultimately have "Fin 9 \<le> Fin 8" by (rule order_trans[rotated])
    then show False by simp
  qed
  then have fk: "?f k = Fin 9" by (rule root_child_win)
  have "k \<le> i"
  proof (rule ccontr)
    assume "\<not> k \<le> i"
    then have "?f i < ?f k" using k(6) i(1,2) by auto
    then show False using fi fk by simp
  qed
  moreover have "\<not> checkForWin ?ai (setCell ?b j (Val ?ai))"
    if "j < k" "j < length ?b \<and> ?b ! j = Null" for j
  proof
    assume "checkForWin ?ai (setCell ?b j (Val ?ai))"
    then have "?f j = Fin 9" by (rule root_child_win)
    moreover have "?f j < ?f k" using k(6) that by auto
    ultimately show False using fk by simp
  qed
  ultimately show ?thesis using k(1,2,3,4) wk fk by (auto simp: minimax_result_def)
qed

lemma findWinningMove_loop_some:
  "(\<exists>combo \<in> set combos. completable b p combo) \<Longrightarrow>
   \<exists>combo \<in> set combos. completable b p combo
      \<and> (\<exists>f \<in> set combo. findWinningMove_loop b p combos = Val f \<and> f < length b \<and> b ! f = Null)"
proof (induction combos)
  case Nil
  then show ?case by simp
next
  case (Cons combo rest)
  show ?case
  proof (cases "completable b p combo")
    case True
    from completable_move[OF True] show ?thesis using True by auto
  next
    case False
    then show ?thesis using Cons by auto
  qed
qed

lemma findWinningMove_loop_none:
  "(\<forall>combo \<in> set combos. \<not> completable b p combo) \<Longrightarrow> findWinningMove_loop b p combos = Null"
  by (induction combos) simp_all

lemma getStrategicMove_win:
  assumes "\<exists>combo \<in> set WINNING_COMBINATIONS. completable (board st) (aiPlayer st) combo"
  shows "\<exists>combo \<in> set WINNING_COMBINATIONS. completable (board st) (aiPlayer st) combo
           \<and> (\<exists>i \<in> set combo. fst (getStrategicMove st es r) = Val i
                  \<and> i < length (board st) \<and> board st ! i = Null)"
proof -
  from findWinningMove_loop_some[OF assms]
  obtain combo f where c: "combo \<in> set WINNING_COMBINATIONS" "completable (board st) (aiPlayer st) combo"
      "f \<in> set combo" "findWinningMove st (aiPlayer st) = Val f" "f < length (board st)" "board st ! f = Null"
    by (auto simp: findWinningMove_def)
  have "fst (getStrategicMove st es r) = Val f"
    using c(4) by (simp add: getStrategicMove_def)
  then show ?thesis using c by blast
qed

lemma getStrategicMove_block:
  assumes "\<forall>combo \<in> set WINNING_COMBINATIONS. \<not> completable (board st) (aiPlayer st) combo"
      and "\<exists>combo \<in> set WINNING_COMBINATIONS. completable (board st) (humanPlayer st) combo"
  shows "\<exists>combo \<in> set WINNING_COMBINATIONS. completable (board st) (humanPlayer st) combo
           \<and> (\<exists>i \<in> set combo. fst (getStrategicMove st es r) = Val i
                  \<and> i < length (board st) \<and> board st ! i = Null)"
proof -
  have n: "findWinningMove st (aiPlayer st) = Null"
    using findWinningMove_loop_none[OF assms(1)] by (simp add: findWinningMove_def)
  from findWinningMove_loop_some[OF assms(2)]
  obtain combo f where c: "combo \<in> set WINNING_COMBINATIONS" "completable (board st) (humanPlayer st) combo"
      "f \<in> set combo" "findWinningMove st (humanPlayer st) = Val f" "f < length (board st)" "board st ! f = Null"
    by (auto simp: findWinningMove_def)
  have "fst (getStrategicMove st es r) = Val f"
    using n c(4) by (simp add: getStrategicMove_def)
  then show ?thesis using c by blast
qed

lemma getOptimalMove_win:
  assumes live: "\<not> checkForWin (aiPlayer st) (board st)" "\<not> checkForWin (humanPlayer st) (board st)"
      and "\<exists>combo \<in> set WINNING_COMBINATIONS. completable (board st) (aiPlayer st) combo"
  shows "\<exists>combo \<in> set WINNING_COMBINATIONS. completable (board st) (aiPlayer st) combo
           \<and> (\<exists>i \<in> set combo. fst (getOptimalMove st) = Val i
                  \<and> i < length (board st) \<and> board st ! i = Null)"
proof -
  let ?ai = "aiPlayer st" and ?b = "board st"
  from assms(3) obtain combo where c: "combo \<in> set WINNING_COMBINATIONS" "completable ?b ?ai combo"
    by blast
  from completable_move[OF c(2)] obtain f where f: "f \<in> set combo" "f < length ?b" "?b ! f = Null"
    by blast
  have "checkForWin ?ai (setCell ?b f (Val ?ai))"
    using checkForWin_placed[OF f(2,3) live(1)] c f(1) by blast
  from getOptimalMove_immediate_win[OF live f(2,3) this]
  obtain k where k: "fst (getOptimalMove st) = Val k" "k < length ?b" "?b ! k = Null"
      "checkForWin ?ai (setCell ?b k (Val ?ai))" by blast
  then obtain combo' where "combo' \<in> set WINNING_COMBINATIONS" "completable ?b ?ai combo'" "k \<in> set combo'"
    using checkForWin_placed[OF k(2,3) live(1)] by blast
  then show ?thesis using k by blast
qed

lemma node_lower_nowin:
  assumes "\<not> checkForWin hu b" "d \<le> 8"
  shows "Fin (- 10 + int (d + 1)) \<le> fst (minimax_unpruned ai hu b p True d)"
proof (cases "terminal ai hu b d")
  case True
  then show ?thesis using assms by (simp add: unpruned_terminal leaf_move_def)
next
  case False
  let ?es = "getEmptyIndices b"
  obtain k where k: "k \<in> set ?es" using False by (cases ?es) (auto simp: terminal_def)
  have d: "d + 1 \<le> 9" using assms(2) by simp
  have "Fin (- 10 + int (d + 1)) \<le> unpruned_child ai hu b p True d k"
    unfolding unpruned_child_def
    using unpruned_bounds[OF d, of ai hu "setCell b k (Val p)" "if True then hu else ai" "\<not> True"]
    by (rule conjunct1)
  also have "\<dots> \<le> fst (unpruned_fold ai hu b p True d (NegInf, Val (hd ?es)) ?es)"
    using k by (rule unpruned_fold_ge_member) simp
  finally show ?thesis using False by (simp add: unpruned_node_fold)
qed

lemma root_child_other:
  assumes neq: "ai \<noteq> hu"
      and live: "\<not> checkForWin ai b" "\<not> checkForWin hu b"
      and noai: "\<forall>combo \<in> set WINNING_COMBINATIONS. \<not> completable b ai combo"
      and hc: "combo \<in> set WINNING_COMBINATIONS" "completable b hu combo" "c \<in> set combo" "cellAt b c = Null"
      and j: "j < length b" "b ! j = Null" "j \<noteq> c"
  shows "unpruned_child ai hu b ai True 0 j = Fin (- 8)"
proof -
  let ?b1 = "setCell b j (Val ai)"
  let ?es = "getEmptyIndices ?b1"
  let ?b2 = "setCell ?b1 c (Val hu)"
  have c: "c < length b" "b ! c = Null" using hc(4) by (simp_all add: cellAt_Null)
  have w1: "\<not> checkForWin ai ?b1" using checkForWin_placed[OF j(1,2) live(1)] noai by blast
  have w2: "\<not> checkForWin hu ?b1" using checkForWin_other[OF neq j(1)] live(2) by blast
  have c1: "c < length ?b1" "?b1 ! c = Null"
    using c j by (simp_all add: setCell_def)
  then have ces: "c \<in> set ?es" by (simp add: set_getEmptyIndices)
  then have nt: "\<not> terminal ai hu ?b1 1" using w1 w2 by (auto simp: terminal_def)
  have jc: "j \<notin> set combo"
    using completable_single_empty[OF hc(1,2,3,4), of j] j by (auto simp: cellAt_Null)
  have "completable ?b1 hu combo" using completable_unchanged[OF j(1) jc] hc(2) by simp
  then have h2: "checkForWin hu ?b2" using checkForWin_placed[OF c1 w2] hc(1,3) by blast
  have a2: "\<not> checkForWin ai ?b2" using checkForWin_other[OF neq[symmetric] c1(1)] w1 by blast
  have gc: "unpruned_child ai hu ?b1 hu False 1 c = Fin (- 8)"
    using h2 a2 by (simp add: unpruned_child_def unpruned_terminal terminal_def leaf_move_def)
  have lo: "Fin (- 8) \<le> unpruned_child ai hu ?b1 hu False 1 k" for k
  proof -
    have "(1::nat) + 1 \<le> 9" by simp
    from unpruned_bounds[OF this, of ai hu "setCell ?b1 k (Val hu)" "if False then hu else ai" "\<not> False"]
    show ?thesis by (simp add: unpruned_child_def)
  qed
  let ?r = "fst (unpruned_fold ai hu ?b1 hu False 1 (PosInf, Val (hd ?es)) ?es)"
  have "Fin (- 8) \<le> ?r" by (rule unpruned_fold_lower) (use lo in auto)
  moreover have "?r \<le> Fin (- 8)"
    using unpruned_fold_le_member[OF ces, of False ai hu ?b1 hu 1 "(PosInf, Val (hd ?es))"] gc by simp
  ultimately have "?r = Fin (- 8)" by (rule antisym[rotated])
  then show ?thesis using nt by (simp add: unpruned_child_def unpruned_node_fold)
qed

lemma root_child_block:
  assumes neq: "ai \<noteq> hu"
      and live: "\<not> checkForWin ai b" "\<not> checkForWin hu b"
      and noai: "\<forall>combo \<in> set WINNING_COMBINATIONS. \<not> completable b ai combo"
      and only: "\<forall>combo \<in> set WINNING_COMBINATIONS. completable b hu combo \<longrightarrow> c \<in> set combo"
      and c: "c < length b" "b ! c = Null"
  shows "Fin (- 7) \<le> unpruned_child ai hu b ai True 0 c"
proof -
  let ?b1 = "setCell b c (Val ai)"
  let ?es = "getEmptyIndices ?b1"
  have w1: "\<not> checkForWin ai ?b1" using checkForWin_placed[OF c live(1)] noai by blast
  have w2: "\<not> checkForWin hu ?b1" using checkForWin_other[OF neq c(1)] live(2) by blast
  have nohu: "\<not> completable ?b1 hu combo" if "combo \<in> set WINNING_COMBINATIONS" for combo
  proof (cases "c \<in> set combo")
    case True
    then show ?thesis using completable_blocked[OF that True c(1) neq] by simp
  next
    case False
    then show ?thesis using completable_unchanged[OF c(1) False, of "Val ai" hu] only that by blast
  qed
  show ?thesis
  proof (cases "terminal ai hu ?b1 1")
    case True
    then show ?thesis using w1 w2
      by (simp add: unpruned_child_def unpruned_terminal leaf_move_def)
  next
    case False
    have lo: "Fin (- 7) \<le> unpruned_child ai hu ?b1 hu False 1 k" if "k \<in> set ?es" for k
    proof -
      have k: "k < length ?b1" "?b1 ! k = Null" using that by (simp_all add: set_getEmptyIndices)
      have "\<not> checkForWin hu (setCell ?b1 k (Val hu))"
        using checkForWin_placed[OF k w2] nohu by blast
      moreover have "(1::nat) + 1 \<le> 8" by simp
      ultimately have "Fin (- 10 + int (1 + 1 + 1))
          \<le> fst (minimax_unpruned ai hu (setCell ?b1 k (Val hu)) ai True (1 + 1))"
        by (rule node_lower_nowin)
      then show ?thesis by (simp add: unpruned_child_def)
    qed
    have "Fin (- 7) \<le> fst (unpruned_fold ai hu ?b1 hu False 1 (PosInf, Val (hd ?es)) ?es)"
      by (rule unpruned_fold_lower) (use lo in auto)
    then show ?thesis using False by (simp add: unpruned_child_def unpruned_node_fold)
  qed
qed

lemma getOptimalMove_block:
  assumes neq: "aiPlayer st \<noteq> humanPlayer st"
      and live: "\<not> checkForWin (aiPlayer st) (board st)" "\<not> checkForWin (humanPlayer st) (board st)"
      and noai: "\<forall>combo \<in> set WINNING_COMBINATIONS. \<not> completable (board st) (aiPlayer st) combo"
      and ex: "\<exists>combo \<in> set WINNING_COMBINATIONS. completable (board st) (humanPlayer st) combo"
      and only: "\<forall>combo \<in> set WINNING_COMBINATIONS.
                   completable (board st) (humanPlayer st) combo \<longrightarrow> c \<in> set combo \<and> cellAt (board st) c = Null"
  shows "fst (getOptimalMove st) = Val c"
proof -
  let ?ai = "aiPlayer st" and ?hu = "humanPlayer st" and ?b = "board st"
  let ?f = "unpruned_child ?ai ?hu ?b ?ai True 0"
  from ex only obtain combo where hc: "combo \<in> set WINNING_COMBINATIONS" "completable ?b ?hu combo"
      "c \<in> set combo" "cellAt ?b c = Null" by blast
  have c: "c < length ?b" "?b ! c = Null" using hc(4) by (simp_all add: cellAt_Null)
  have ne: "getEmptyIndices ?b \<noteq> []" using c set_getEmptyIndices[of c ?b] by auto
  from getOptimalMove_first_max[OF ne live]
  obtain k where k: "fst (getOptimalMove st) = Val k" "k < length ?b" "?b ! k = Null"
      "\<forall>j. j < length ?b \<and> ?b ! j = Null \<longrightarrow> ?f j \<le> ?f k"
    by blast
  have "k = c"
  proof (rule ccontr)
    assume "k \<noteq> c"
    then have "?f k = Fin (- 8)"
      using root_child_other[OF neq live noai hc k(2,3)] by simp
    moreover have "Fin (- 7) \<le> ?f c"
      using root_child_block[OF neq live noai _ c] only by blast
    moreover have "?f c \<le> ?f k" using k(4) c by blast
    ultimately have "Fin (- 7) \<le> Fin (- 8)" by (metis order_trans)
    then show False by simp
  qed
  then show ?thesis using k(1) by simp
qed

lemma minimax_result_win:
  "checkForWin ai b \<Longrightarrow> fst (minimax ai hu b p mx d al be) = (Fin (10 - int d), Null)"
  "\<not> checkForWin ai b \<Longrightarrow> checkForWin hu b \<Longrightarrow> fst (minimax ai hu b p mx d al be) = (Fin (- 10 + int d), Null)"
  using minimax_result_terminal[of ai hu b d p mx al be]
  by (simp_all add: terminal_def leaf_move_def minimax_result_def)

text \<open>
  Claim C4.  A board on which the maximizer (the engine) has a complete line, reached at depth
  \<open>d\<close>, is scored \<open>10 - d\<close>; one on which the minimizer has a complete line is scored
  \<open>-10 + d\<close>.  Consequently, on a board without a complete line where some empty cell \<open>i\<close>
  completes a line of the engine, \<open>getOptimalMove\<close> returns an immediately winning cell (the
  first one in ascending order) with root score 9, and every move that does not win at once,
  a slower forced win included, has a value of at most 8.
\<close>

theorem depth_adjusted_scores_prefer_fast_win:
  "(checkForWin ai b \<longrightarrow> fst (minimax ai hu b p mx d al be) = (Fin (10 - int d), Null))
   \<and> (\<not> checkForWin ai b \<and> checkForWin hu b \<longrightarrow>
         fst (minimax ai hu b p mx d al be) = (Fin (- 10 + int d), Null))
   \<and> (\<not> checkForWin (aiPlayer st) (board st) \<and> \<not> checkForWin (humanPlayer st) (board st)
       \<and> i < length (board st) \<and> board st ! i = Null
       \<and> checkForWin (aiPlayer st) (setCell (board st) i (Val (aiPlayer st))) \<longrightarrow>
         (\<exists>k \<le> i. fst (getOptimalMove st) = Val k \<and> k < length (board st) \<and> board st ! k = Null
            \<and> checkForWin (aiPlayer st) (setCell (board st) k (Val (aiPlayer st)))
            \<and> fst (fst (minimax (aiPlayer st) (humanPlayer st) (board st) (aiPlayer st) True 0 NegInf PosInf)) = Fin 9
            \<and> (\<forall>j < k. j < length (board st) \<and> board st ! j = Null
                  \<longrightarrow> \<not> checkForWin (aiPlayer st) (setCell (board st) j (Val (aiPlayer st))))))
   \<and> (\<not> checkForWin (aiPlayer st) (setCell (board st) j (Val (aiPlayer st))) \<longrightarrow>
         fst (minimax_unpruned (aiPlayer st) (humanPlayer st) (setCell (board st) j (Val (aiPlayer st)))
                (humanPlayer st) False 1) \<le> Fin 8)"
proof -
  have "\<exists>k \<le> i. fst (getOptimalMove st) = Val k \<and> k < length (board st) \<and> board st ! k = Null
            \<and> checkForWin (aiPlayer st) (setCell (board st) k (Val (aiPlayer st)))
            \<and> fst (fst (minimax (aiPlayer st) (humanPlayer st) (board st) (aiPlayer st) True 0 NegInf PosInf)) = Fin 9
            \<and> (\<forall>j < k. j < length (board st) \<and> board st ! j = Null
                  \<longrightarrow> \<not> checkForWin (aiPlayer st) (setCell (board st) j (Val (aiPlayer st))))"
    if "\<not> checkForWin (aiPlayer st) (board st)" "\<not> checkForWin (humanPlayer st) (board st)"
       "i < length (board st)" "board st ! i = Null"
       "checkForWin (aiPlayer st) (setCell (board st) i (Val (aiPlayer st)))"
    using that by (rule getOptimalMove_immediate_win)
  moreover have "fst (minimax_unpruned (aiPlayer st) (humanPlayer st) (setCell (board st) j (Val (aiPlayer st)))
                (humanPlayer st) False 1) \<le> Fin 8"
    if "\<not> checkForWin (aiPlayer st) (setCell (board st) j (Val (aiPlayer st)))"
    using root_child_no_win[OF that, of "humanPlayer st"] by (simp add: unpruned_child_def)
  ultimately show ?thesis
    using minimax_result_win[of ai b hu p mx d al be] by blast
qed

theorem depth_adjusted_scores_prefer_fast_win_witness:
  "checkForWin PLAYER_X (board c9_state)
   \<and> fst (minimax PLAYER_X PLAYER_O (board c9_state) PLAYER_O False 3 NegInf PosInf) = (Fin 7, Null)
   \<and> \<not> checkForWin PLAYER_O (board c9_state)
   \<and> fst (minimax PLAYER_O PLAYER_X (board c9_state) PLAYER_O True 3 NegInf PosInf) = (Fin (- 7), Null)
   \<and> \<not> checkForWin (aiPlayer c4_state) (board c4_state)
   \<and> \<not> checkForWin (humanPlayer c4_state) (board c4_state)
   \<and> 2 < length (board c4_state) \<and> board c4_state ! 2 = Null
   \<and> checkForWin (aiPlayer c4_state) (setCell (board c4_state) 2 (Val (aiPlayer c4_state)))
   \<and> (\<exists>k \<le> 2. fst (getOptimalMove c4_state) = Val k
         \<and> checkForWin (aiPlayer c4_state) (setCell (board c4_state) k (Val (aiPlayer c4_state))))
   \<and> \<not> checkForWin (aiPlayer c4_state) (setCell (board c4_state) 0 (Val (aiPlayer c4_state)))
   \<and> fst (minimax_unpruned (aiPlayer c4_state) (humanPlayer c4_state)
            (setCell (board c4_state) 0 (Val (aiPlayer c4_state))) (humanPlayer c4_state) False 1) = Fin 7"
proof -
  have a: "checkForWin PLAYER_X (board c9_state)" "\<not> checkForWin PLAYER_O (board c9_state)"
    by code_simp+
  have b: "\<not> checkForWin (aiPlayer c4_state) (board c4_state)"
     "\<not> checkForWin (humanPlayer c4_state) (board c4_state)"
     "2 < length (board c4_state)" "board c4_state ! 2 = Null"
     "checkForWin (aiPlayer c4_state) (setCell (board c4_state) 2 (Val (aiPlayer c4_state)))"
     "\<not> checkForWin (aiPlayer c4_state) (setCell (board c4_state) 0 (Val (aiPlayer c4_state)))"
    by code_simp+
  have c: "fst (minimax_unpruned (aiPlayer c4_state) (humanPlayer c4_state)
            (setCell (board c4_state) 0 (Val (aiPlayer c4_state))) (humanPlayer c4_state) False 1) = Fin 7"
    by code_simp
  show ?thesis
    using depth_adjusted_scores_prefer_fast_win[of PLAYER_X "board c9_state" PLAYER_O PLAYER_O False 3 NegInf PosInf c4_state 2 0]
          depth_adjusted_scores_prefer_fast_win[of PLAYER_O "board c9_state" PLAYER_X PLAYER_O True 3 NegInf PosInf c4_state 2 0]
          a b c
    by auto
qed

text \<open>
  Claim C5 as stated fails for the Expert policy: on this board only the opponent X can
  complete a line next move (at cell 2 or cell 3), the engine O has no completable line, and
  \<open>getOptimalMove\<close> returns cell 0, which completes no line of X.  Every move loses in two
  plies, so all moves score -8 and the first empty cell is kept.
\<close>

theorem expert_block_counterexample:
  "filter (completable (board c5_fork_state) (aiPlayer c5_fork_state)) WINNING_COMBINATIONS = []
   \<and> filter (completable (board c5_fork_state) (humanPlayer c5_fork_state)) WINNING_COMBINATIONS
       = [[3, 4, 5], [2, 4, 6]]
   \<and> \<not> checkForWin PLAYER_X (board c5_fork_state) \<and> \<not> checkForWin PLAYER_O (board c5_fork_state)
   \<and> cellAt (board c5_fork_state) 3 = Null \<and> cellAt (board c5_fork_state) 2 = Null
   \<and> fst (getOptimalMove c5_fork_state) = Val 0"
  by code_simp

text \<open>
  Claim C5 (as amended).  Strategic policy, on every board: when the engine has a completable
  line, the result is the empty cell of such a line; when it has none and the opponent has
  one, the result is the empty cell of a completable line of the opponent.  Expert policy, on
  every board without a complete line: when the engine has a completable line, the result is
  the empty cell of such a line; when it has none and all completable lines of the opponent
  share one empty cell, the result is that cell.
\<close>

theorem win_before_block:
  "((\<exists>combo \<in> set WINNING_COMBINATIONS. completable (board st) (aiPlayer st) combo) \<longrightarrow>
      (\<exists>combo \<in> set WINNING_COMBINATIONS. completable (board st) (aiPlayer st) combo
         \<and> (\<exists>i \<in> set combo. fst (getStrategicMove st es r) = Val i
               \<and> i < length (board st) \<and> board st ! i = Null)))
   \<and> ((\<forall>combo \<in> set WINNING_COMBINATIONS. \<not> completable (board st) (aiPlayer st) combo)
       \<and> (\<exists>combo \<in> set WINNING_COMBINATIONS. completable (board st) (humanPlayer st) combo) \<longrightarrow>
      (\<exists>combo \<in> set WINNING_COMBINATIONS. completable (board st) (humanPlayer st) combo
         \<and> (\<exists>i \<in> set combo. fst (getStrategicMove st es r) = Val i
               \<and> i < length (board st) \<and> board st ! i = Null)))
   \<and> (\<not> checkForWin (aiPlayer st) (board st) \<and> \<not> checkForWin (humanPlayer st) (board st)
       \<and> (\<exists>combo \<in> set WINNING_COMBINATIONS. completable (board st) (aiPlayer st) combo) \<longrightarrow>
      (\<exists>combo \<in> set WINNING_COMBINATIONS. completable (board st) (aiPlayer st) combo
         \<and> (\<exists>i \<in> set combo. fst (getOptimalMove st) = Val i
               \<and> i < length (board st) \<and> board st ! i = Null)))
   \<and> (aiPlayer st \<noteq> humanPlayer st
       \<and> \<not> checkForWin (aiPlayer st) (board st) \<and> \<not> checkForWin (humanPlayer st) (board st)
       \<and> (\<forall>combo \<in> set WINNING_COMBINATIONS. \<not> completable (board st) (aiPlayer st) combo)
       \<and> (\<exists>combo \<in> set WINNING_COMBINATIONS. completable (board st) (humanPlayer st) combo)
       \<and> (\<forall>combo \<in> set WINNING_COMBINATIONS. completable (board st) (humanPlayer st) combo
              \<longrightarrow> c \<in> set combo \<and> cellAt (board st) c = Null) \<longrightarrow>
      fst (getOptimalMove st) = Val c)"
  using getStrategicMove_win[of st es r] getStrategicMove_block[of st es r]
    getOptimalMove_win[of st] getOptimalMove_block[of st c]
  by blast

theorem win_before_block_witness:
  "(\<exists>combo \<in> set WINNING_COMBINATIONS. completable (board c6_state) (aiPlayer c6_state) combo
         \<and> (\<exists>i \<in> set combo. fst (getStrategicMove c6_state (getEmptyIndices (board c6_state)) 0) = Val i))
   \<and> \<not> checkForWin (aiPlayer c6_state) (board c6_state)
   \<and> \<not> checkForWin (humanPlayer c6_state) (board c6_state)
   \<and> (\<exists>combo \<in> set WINNING_COMBINATIONS. completable (board c6_state) (aiPlayer c6_state) combo
         \<and> (\<exists>i \<in> set combo. fst (getOptimalMove c6_state) = Val i))
   \<and> aiPlayer c5_block_state \<noteq> humanPlayer c5_block_state
   \<and> \<not> checkForWin (aiPlayer c5_block_state) (board c5_block_state)
   \<and> \<not> checkForWin (humanPlayer c5_block_state) (board c5_block_state)
   \<and> (\<exists>combo \<in> set WINNING_COMBINATIONS. completable (board c5_block_state) (humanPlayer c5_block_state) combo
         \<and> (\<exists>i \<in> set combo. fst (getStrategicMove c5_block_state (getEmptyIndices (board c5_block_state)) 0) = Val i))
   \<and> fst (getOptimalMove c5_block_state) = Val 2"
proof -
  have a: "\<exists>combo \<in> set WINNING_COMBINATIONS. completable (board c6_state) (aiPlayer c6_state) combo"
    "\<not> checkForWin (aiPlayer c6_state) (board c6_state)"
    "\<not> checkForWin (humanPlayer c6_state) (board c6_state)"
    by code_simp+
  have b: "aiPlayer c5_block_state \<noteq> humanPlayer c5_block_state"
    "\<not> checkForWin (aiPlayer c5_block_state) (board c5_block_state)"
    "\<not> checkForWin (humanPlayer c5_block_state) (board c5_block_state)"
    "\<forall>combo \<in> set WINNING_COMBINATIONS. \<not> completable (board c5_block_state) (aiPlayer c5_block_state) combo"
    "\<exists>combo \<in> set WINNING_COMBINATIONS. completable (board c5_block_state) (humanPlayer c5_block_state) combo"
    "\<forall>combo \<in> set WINNING_COMBINATIONS. completable (board c5_block_state) (humanPlayer c5_block_state) combo
              \<longrightarrow> 2 \<in> set combo \<and> cellAt (board c5_block_state) 2 = Null"
    by code_simp+
  show ?thesis
    using win_before_block[of c6_state "getEmptyIndices (board c6_state)" 0 2]
          win_before_block[of c5_block_state "getEmptyIndices (board c5_block_state)" 0 2]
          a b
    by blast
qed

subsection \<open>Unfolding the search on an explicit board\<close>

lemma depth_table:
  "next_depth 0 = 1" "next_depth 1 = 2" "next_depth 2 = 3" "next_depth 3 = 4" "next_depth 4 = 5"
  "next_depth 5 = 6" "next_depth 6 = 7" "next_depth 7 = 8" "next_depth 8 = 9"
  "win_score 0 = Fin 10" "win_score 1 = Fin 9" "win_score 2 = Fin 8" "win_score 3 = Fin 7"
  "win_score 4 = Fin 6" "win_score 5 = Fin 5" "win_score 6 = Fin 4" "win_score 7 = Fin 3"
  "win_score 8 = Fin 2" "win_score 9 = Fin 1"
  "loss_score 0 = Fin (- 10)" "loss_score 1 = Fin (- 9)" "loss_score 2 = Fin (- 8)"
  "loss_score 3 = Fin (- 7)" "loss_score 4 = Fin (- 6)" "loss_score 5 = Fin (- 5)"
  "loss_score 6 = Fin (- 4)" "loss_score 7 = Fin (- 3)" "loss_score 8 = Fin (- 2)"
  "loss_score 9 = Fin (- 1)"
  "too_deep 0 = False" "too_deep 1 = False" "too_deep 2 = False" "too_deep 3 = False"
  "too_deep 4 = False" "too_deep 5 = False" "too_deep 6 = False" "too_deep 7 = False"
  "too_deep 8 = False" "too_deep 9 = True"
  by (simp_all add: next_depth_def win_score_def loss_score_def too_deep_def)

lemma scan_end: "length b \<le> k \<Longrightarrow> scan ai hu p mx d b k best al be = best"
  by (simp add: scan_def loop_result_Nil)

lemma scan_step:
  assumes "k < length b"
  shows "scan ai hu p mx d b k best al be =
     (if b ! k = Null
      then (let r = fst (minimax_result ai hu (setCell b k (Val p)) (if mx then hu else ai) (\<not> mx) (d + 1) al be);
                best' = ab_step mx best k r;
                al' = (if mx then max al r else al);
                be' = (if mx then be else min be r)
            in if be' \<le> al' then best' else scan ai hu p mx d b (Suc k) best' al' be')
      else scan ai hu p mx d b (Suc k) best al be)"
proof -
  have u: "[k..<length b] = k # [Suc k..<length b]" using assms by (rule upt_conv_Cons)
  show ?thesis
  proof (cases "b ! k = Null")
    case True
    then show ?thesis
      unfolding scan_def u using loop_result_Cons[OF assms True] by simp
  next
    case False
    then show ?thesis unfolding scan_def u by simp
  qed
qed

lemma checkForWin_9:
  "checkForWin p [c0, c1, c2, c3, c4, c5, c6, c7, c8] = win9 p c0 c1 c2 c3 c4 c5 c6 c7 c8"
  by (simp add: checkForWin_def WINNING_COMBINATIONS_def cellAt_def win9_def line3_def)

lemma scan_max_0:
  "scan ai hu ai True d [c0, c1, c2, c3, c4, c5, c6, c7, c8] 0 (bs, bi) al be =
     (if c0 = Null
      then step_max ai hu d [c0, c1, c2, c3, c4, c5, c6, c7, c8] 1 bs bi al be (Val 0)
             (fst (minimax_result ai hu [Val ai, c1, c2, c3, c4, c5, c6, c7, c8] hu False (next_depth d) al be))
      else scan ai hu ai True d [c0, c1, c2, c3, c4, c5, c6, c7, c8] 1 (bs, bi) al be)"
  by (subst scan_step) (simp_all add: step_max_def setCell_def ab_step_def Let_def next_depth_def)

lemma scan_min_0:
  "scan ai hu hu False d [c0, c1, c2, c3, c4, c5, c6, c7, c8] 0 (bs, bi) al be =
     (if c0 = Null
      then step_min ai hu d [c0, c1, c2, c3, c4, c5, c6, c7, c8] 1 bs bi al be (Val 0)
             (fst (minimax_result ai hu [Val hu, c1, c2, c3, c4, c5, c6, c7, c8] ai True (next_depth d) al be))
      else scan ai hu hu False d [c0, c1, c2, c3, c4, c5, c6, c7, c8] 1 (bs, bi) al be)"
  by (subst scan_step) (simp_all add: step_min_def setCell_def ab_step_def Let_def next_depth_def)

lemma scan_max_1:
  "scan ai hu ai True d [c0, c1, c2, c3, c4, c5, c6, c7, c8] 1 (bs, bi) al be =
     (if c1 = Null
      then step_max ai hu d [c0, c1, c2, c3, c4, c5, c6, c7, c8] 2 bs bi al be (Val 1)
             (fst (minimax_result ai hu [c0, Val ai, c2, c3, c4, c5, c6, c7, c8] hu False (next_depth d) al be))
      else scan ai hu ai True d [c0, c1, c2, c3, c4, c5, c6, c7, c8] 2 (bs, bi) al be)"
  by (subst scan_step) (simp_all add: step_max_def setCell_def ab_step_def Let_def next_depth_def numeral_2_eq_2)

lemma scan_min_1:
  "scan ai hu hu False d [c0, c1, c2, c3, c4, c5, c6, c7, c8] 1 (bs, bi) al be =
     (if c1 = Null
      then step_min ai hu d [c0, c1, c2, c3, c4, c5, c6, c7, c8] 2 bs bi al be (Val 1)
             (fst (minimax_result ai hu [c0, Val hu, c2, c3, c4, c5, c6, c7, c8] ai True (next_depth d) al be))
      else scan ai hu hu False d [c0, c1, c2, c3, c4, c5, c6, c7, c8] 2 (bs, bi) al be)"
  by (subst scan_step) (simp_all add: step_min_def setCell_def ab_step_def Let_def next_depth_def numeral_2_eq_2)

lemma scan_max_2:
  "scan ai hu ai True d [c0, c1, c2, c3, c4, c5, c6, c7, c8] 2 (bs, bi) al be =
     (if c2 = Null
      then step_max ai hu d [c0, c1, c2, c3, c4, c5, c6, c7, c8] 3 bs bi al be (Val 2)
             (fst (minimax_result ai hu [c0, c1, Val ai, c3, c4, c5, c6, c7, c8] hu False (next_depth d) al be))
      else scan ai hu ai True d [c0, c1, c2, c3, c4, c5, c6, c7, c8] 3 (bs, bi) al be)"
  by (subst scan_step) (simp_all add: step_max_def setCell_def ab_step_def Let_def next_depth_def)

lemma scan_min_2:
  "scan ai hu hu False d [c0, c1, c2, c3, c4, c5, c6, c7, c8] 2 (bs, bi) al be =
     (if c2 = Null
      then step_min ai hu d [c0, c1, c2, c3, c4, c5, c6, c7, c8] 3 bs bi al be (Val 2)
             (fst (minimax_result ai hu [c0, c1, Val hu, c3, c4, c5, c6, c7, c8] ai True (next_depth d) al be))
      else scan ai hu hu False d [c0, c1, c2, c3, c4, c5, c6, c7, c8] 3 (bs, bi) al be)"
  by (subst scan_step) (simp_all add: step_min_def setCell_def ab_step_def Let_def next_depth_def)

lemma scan_max_3:
  "scan ai hu ai True d [c0, c1, c2, c3, c4, c5, c6, c7, c8] 3 (bs, bi) al be =
     (if c3 = Null
      then step_max ai hu d [c0, c1, c2, c3, c4, c5, c6, c7, c8] 4 bs bi al be (Val 3)
             (fst (minimax_result ai hu [c0, c1, c2, Val ai, c4, c5, c6, c7, c8] hu False (next_depth d) al be))
      else scan ai hu ai True d [c0, c1, c2, c3, c4, c5, c6, c7, c8] 4 (bs, bi) al be)"
  by (subst scan_step) (simp_all add: step_max_def setCell_def ab_step_def Let_def next_depth_def)

lemma scan_min_3:
  "scan ai hu hu False d [c0, c1, c2, c3, c4, c5, c6, c7, c8] 3 (bs, bi) al be =
     (if c3 = Null
      then step_min ai hu d [c0, c1, c2, c3, c4, c5, c6, c7, c8] 4 bs bi al be (Val 3)
             (fst (minimax_result ai hu [c0, c1, c2, Val hu, c4, c5, c6, c7, c8] ai True (next_depth d) al be))
      else scan ai hu hu False d [c0, c1, c2, c3, c4, c5, c6, c7, c8] 4 (bs, bi) al be)"
  by (subst scan_step) (simp_all add: step_min_def setCell_def ab_step_def Let_def next_depth_def)

lemma scan_max_4:
  "scan ai hu ai True d [c0, c1, c2, c3, c4, c5, c6, c7, c8] 4 (bs, bi) al be =
     (if c4 = Null
      then step_max ai hu d [c0, c1, c2, c3, c4, c5, c6, c7, c8] 5 bs bi al be (Val 4)
             (fst (minimax_result ai hu [c0, c1, c2, c3, Val ai, c5, c6, c7, c8] hu False (next_depth d) al be))
      else scan ai hu ai True d [c0, c1, c2, c3, c4, c5, c6, c7, c8] 5 (bs, bi) al be)"
  by (subst scan_step) (simp_all add: step_max_def setCell_def ab_step_def Let_def next_depth_def)

lemma scan_min_4:
  "scan ai hu hu False d [c0, c1, c2, c3, c4, c5, c6, c7, c8] 4 (bs, bi) al be =
     (if c4 = Null
      then step_min ai hu d [c0, c1, c2, c3, c4, c5, c6, c7, c8] 5 bs bi al be (Val 4)
             (fst (minimax_result ai hu [c0, c1, c2, c3, Val hu, c5, c6, c7, c8] ai True (next_depth d) al be))
      else scan ai hu hu False d [c0, c1, c2, c3, c4, c5, c6, c7, c8] 5 (bs, bi) al be)"
  by (subst scan_step) (simp_all add: step_min_def setCell_def ab_step_def Let_def next_depth_def)

lemma scan_max_5:
  "scan ai hu ai True d [c0, c1, c2, c3, c4, c5, c6, c7, c8] 5 (bs, bi) al be =
     (if c5 = Null
      then step_max ai hu d [c0, c1, c2, c3, c4, c5, c6, c7, c8] 6 bs bi al be (Val 5)
             (fst (minimax_result ai hu [c0, c1, c2, c3, c4, Val ai, c6, c7, c8] hu False (next_depth d) al be))
      else scan ai hu ai True d [c0, c1, c2, c3, c4, c5, c6, c7, c8] 6 (bs, bi) al be)"
  by (subst scan_step) (simp_all add: step_max_def setCell_def ab_step_def Let_def next_depth_def)

lemma scan_min_5:
  "scan ai hu hu False d [c0, c1, c2, c3, c4, c5, c6, c7, c8] 5 (bs, bi) al be =
     (if c5 = Null
      then step_min ai hu d [c0, c1, c2, c3, c4, c5, c6, c7, c8] 6 bs bi al be (Val 5)
             (fst (minimax_result ai hu [c0, c1, c2, c3, c4, Val hu, c6, c7, c8] ai True (next_depth d) al be))
      else scan ai hu hu False d [c0, c1, c2, c3, c4, c5, c6, c7, c8] 6 (bs, bi) al be)"
  by (subst scan_step) (simp_all add: step_min_def setCell_def ab_step_def Let_def next_depth_def)

lemma scan_max_6:
  "scan ai hu ai True d [c0, c1, c2, c3, c4, c5, c6, c7, c8] 6 (bs, bi) al be =
     (if c6 = Null
      then step_max ai hu d [c0, c1, c2, c3, c4, c5, c6, c7, c8] 7 bs bi al be (Val 6)
             (fst (minimax_result ai hu [c0, c1, c2, c3, c4, c5, Val ai, c7, c8] hu False (next_depth d) al be))
      else scan ai hu ai True d [c0, c1, c2, c3, c4, c5, c6, c7, c8] 7 (bs, bi) al be)"
  by (subst scan_step) (simp_all add: step_max_def setCell_def ab_step_def Let_def next_depth_def)

lemma scan_min_6:
  "scan ai hu hu False d [c0, c1, c2, c3, c4, c5, c6, c7, c8] 6 (bs, bi) al be =
     (if c6 = Null
      then step_min ai hu d [c0, c1, c2, c3, c4, c5, c6, c7, c8] 7 bs bi al be (Val 6)
             (fst (minimax_result ai hu [c0, c1, c2, c3, c4, c5, Val hu, c7, c8] ai True (next_depth d) al be))
      else scan ai hu hu False d [c0, c1, c2, c3, c4, c5, c6, c7, c8] 7 (bs, bi) al be)"
  by (subst scan_step) (simp_all add: step_min_def setCell_def ab_step_def Let_def next_depth_def)

lemma scan_max_7:
  "scan ai hu ai True d [c0, c1, c2, c3, c4, c5, c6, c7, c8] 7 (bs, bi) al be =
     (if c7 = Null
      then step_max ai hu d [c0, c1, c2, c3, c4, c5, c6, c7, c8] 8 bs bi al be (Val 7)
             (fst (minimax_result ai hu [c0, c1, c2, c3, c4, c5, c6, Val ai, c8] hu False (next_depth d) al be))
      else scan ai hu ai True d [c0, c1, c2, c3, c4, c5, c6, c7, c8] 8 (bs, bi) al be)"
  by (subst scan_step) (simp_all add: step_max_def setCell_def ab_step_def Let_def next_depth_def)

lemma scan_min_7:
  "scan ai hu hu False d [c0, c1, c2, c3, c4, c5, c6, c7, c8] 7 (bs, bi) al be =
     (if c7 = Null
      then step_min ai hu d [c0, c1, c2, c3, c4, c5, c6, c7, c8] 8 bs bi al be (Val 7)
             (fst (minimax_result ai hu [c0, c1, c2, c3, c4, c5, c6, Val hu, c8] ai True (next_depth d) al be))
      else scan ai hu hu False d [c0, c1, c2, c3, c4, c5, c6, c7, c8] 8 (bs, bi) al be)"
  by (subst scan_step) (simp_all add: step_min_def setCell_def ab_step_def Let_def next_depth_def)

lemma scan_max_8:
  "scan ai hu ai True d [c0, c1, c2, c3, c4, c5, c6, c7, c8] 8 (bs, bi) al be =
     (if c8 = Null
      then step_max ai hu d [c0, c1, c2, c3, c4, c5, c6, c7, c8] 9 bs bi al be (Val 8)
             (fst (minimax_result ai hu [c0, c1, c2, c3, c4, c5, c6, c7, Val ai] hu False (next_depth d) al be))
      else scan ai hu ai True d [c0, c1, c2, c3, c4, c5, c6, c7, c8] 9 (bs, bi) al be)"
  by (subst scan_step) (simp_all add: step_max_def setCell_def ab_step_def Let_def next_depth_def)

lemma scan_min_8:
  "scan ai hu hu False d [c0, c1, c2, c3, c4, c5, c6, c7, c8] 8 (bs, bi) al be =
     (if c8 = Null
      then step_min ai hu d [c0, c1, c2, c3, c4, c5, c6, c7, c8] 9 bs bi al be (Val 8)
             (fst (minimax_result ai hu [c0, c1, c2, c3, c4, c5, c6, c7, Val hu] ai True (next_depth d) al be))
      else scan ai hu hu False d [c0, c1, c2, c3, c4, c5, c6, c7, c8] 9 (bs, bi) al be)"
  by (subst scan_step) (simp_all add: step_min_def setCell_def ab_step_def Let_def next_depth_def)

lemma loop_result_first_index:
  assumes "i < length b" "b ! i = Null" "\<forall>j \<in> set rest. j < length b \<and> b ! j = Null"
  shows "loop_result ai hu p mx d (i # rest) b (if mx then NegInf else PosInf, x) al be
           = loop_result ai hu p mx d (i # rest) b (if mx then NegInf else PosInf, y) al be"
    and "snd (loop_result ai hu p mx d (i # rest) b (if mx then NegInf else PosInf, x) al be) \<noteq> Null"
proof -
  define r where "r = fst (minimax_result ai hu (setCell b i (Val p)) (if mx then hu else ai) (\<not> mx) (d + 1) al be)"
  define al' where "al' = (if mx then max al r else al)"
  define be' where "be' = (if mx then be else min be r)"
  obtain v where v: "r = Fin v"
    unfolding r_def using minimax_result_finite by blast
  have L: "loop_result ai hu p mx d (i # rest) b best al be =
             (if be' \<le> al' then ab_step mx best i r
              else loop_result ai hu p mx d rest b (ab_step mx best i r) al' be')" for best
    unfolding r_def al'_def be'_def using loop_result_Cons[OF assms(1,2), of ai hu p mx d rest best al be]
    by (simp add: Let_def)
  have st: "ab_step mx (if mx then NegInf else PosInf, z) i r = (r, Val i)" for z
    by (simp add: ab_step_def less_score_def v)
  show "loop_result ai hu p mx d (i # rest) b (if mx then NegInf else PosInf, x) al be
           = loop_result ai hu p mx d (i # rest) b (if mx then NegInf else PosInf, y) al be"
    by (simp only: L st)
  have "snd (loop_result ai hu p mx d rest b (r, Val i) al' be') \<noteq> Null"
    using loop_result_index[OF assms(3), of ai hu p mx d "(r, Val i)" al' be'] by auto
  then show "snd (loop_result ai hu p mx d (i # rest) b (if mx then NegInf else PosInf, x) al be) \<noteq> Null"
    by (simp only: L st) simp
qed

lemma node_scan:
  assumes "\<not> checkForWin ai b" "\<not> checkForWin hu b" "\<not> 8 < d"
  shows "minimax_result ai hu b p mx d al be
           = found_move (scan ai hu p mx d b 0 (if mx then NegInf else PosInf, Null) al be)"
proof (cases "getEmptyIndices b")
  case Nil
  then have "terminal ai hu b d" by (simp add: terminal_def)
  then show ?thesis using Nil assms
    by (simp add: minimax_result_terminal leaf_move_def scan_def getEmptyIndices_def[symmetric]
        loop_result_Nil found_move_def)
next
  case (Cons i rest)
  then have nt: "\<not> terminal ai hu b d" using assms by (simp add: terminal_def)
  have "\<forall>j \<in> set (getEmptyIndices b). j < length b \<and> b ! j = Null"
    by (simp add: set_getEmptyIndices)
  then have i: "i < length b" "b ! i = Null" "\<forall>j \<in> set rest. j < length b \<and> b ! j = Null"
    using Cons by simp_all
  show ?thesis
    using loop_result_first_index(1)[OF i, of ai hu p mx d "Val i" al be Null]
          loop_result_first_index(2)[OF i, of ai hu p mx d Null al be] Cons nt
    by (simp add: minimax_result_node scan_def getEmptyIndices_def[symmetric] found_move_def)
qed

lemma node_max:
  "minimax_result ai hu [c0, c1, c2, c3, c4, c5, c6, c7, c8] ai True d al be =
     (if win9 ai c0 c1 c2 c3 c4 c5 c6 c7 c8 then (win_score d, Null)
      else if win9 hu c0 c1 c2 c3 c4 c5 c6 c7 c8 then (loss_score d, Null)
      else if too_deep d then (Fin 0, Null)
      else found_move (scan ai hu ai True d [c0, c1, c2, c3, c4, c5, c6, c7, c8] 0 (NegInf, Null) al be))"
  using node_scan[of ai "[c0, c1, c2, c3, c4, c5, c6, c7, c8]" hu d ai True al be]
        minimax_result_terminal[of ai hu "[c0, c1, c2, c3, c4, c5, c6, c7, c8]" d ai True al be]
  by (simp add: checkForWin_9 terminal_def leaf_move_def win_score_def loss_score_def too_deep_def)

lemma node_min:
  "minimax_result ai hu [c0, c1, c2, c3, c4, c5, c6, c7, c8] hu False d al be =
     (if win9 ai c0 c1 c2 c3 c4 c5 c6 c7 c8 then (win_score d, Null)
      else if win9 hu c0 c1 c2 c3 c4 c5 c6 c7 c8 then (loss_score d, Null)
      else if too_deep d then (Fin 0, Null)
      else found_move (scan ai hu hu False d [c0, c1, c2, c3, c4, c5, c6, c7, c8] 0 (PosInf, Null) al be))"
  using node_scan[of ai "[c0, c1, c2, c3, c4, c5, c6, c7, c8]" hu d hu False al be]
        minimax_result_terminal[of ai hu "[c0, c1, c2, c3, c4, c5, c6, c7, c8]" d hu False al be]
  by (simp add: checkForWin_9 terminal_def leaf_move_def win_score_def loss_score_def too_deep_def)

lemma scan_9:
  "scan ai hu p mx d [c0, c1, c2, c3, c4, c5, c6, c7, c8] 9 best al be = best"
  by (rule scan_end) simp

lemma score_compare:
  "Fin x < Fin y \<longleftrightarrow> x < y" "Fin x \<le> Fin y \<longleftrightarrow> x \<le> y"
  "NegInf < Fin x" "Fin x < PosInf" "NegInf < PosInf"
  "\<not> Fin x < NegInf" "\<not> PosInf < Fin x" "\<not> PosInf < NegInf"
  "\<not> Fin x \<le> NegInf" "\<not> PosInf \<le> Fin x" "\<not> PosInf \<le> NegInf"
  "NegInf \<le> Fin x" "Fin x \<le> PosInf" "NegInf \<le> PosInf"
  "max (Fin x) (Fin y) = (if x \<le> y then Fin y else Fin x)"
  "min (Fin x) (Fin y) = (if x \<le> y then Fin x else Fin y)"
  "max NegInf (Fin x) = Fin x" "min PosInf (Fin x) = Fin x"
  by (auto simp: less_score_def max_def min_def)

lemmas ab_eval = node_max node_min scan_max_0 scan_min_0 scan_max_1 scan_min_1 scan_max_2 scan_min_2 scan_max_3 scan_min_3 scan_max_4 scan_min_4 scan_max_5 scan_min_5 scan_max_6 scan_min_6 scan_max_7 scan_min_7 scan_max_8 scan_min_8 scan_9 step_max_def step_min_def found_move_def
  win9_def line3_def score_compare depth_table
  if_True if_False jsval.distinct jsval.inject mark.distinct simp_thms fst_conv snd_conv
  rel_simps

lemma selfplay_search_0:
  "minimax_result PLAYER_X PLAYER_O [Null, Null, Null, Null, Null, Null, Null, Null, Null] PLAYER_X True 0 NegInf PosInf = (Fin 0, Val 0)"
  by (simp only: ab_eval cong: if_weak_cong)

lemma selfplay_search_1:
  "minimax_result PLAYER_O PLAYER_X [Val PLAYER_X, Null, Null, Null, Null, Null, Null, Null, Null] PLAYER_O True 0 NegInf PosInf = (Fin 0, Val 4)"
  by (simp only: ab_eval cong: if_weak_cong)

lemma selfplay_search_2:
  "minimax_result PLAYER_X PLAYER_O [Val PLAYER_X, Null, Null, Null, Val PLAYER_O, Null, Null, Null, Null] PLAYER_X True 0 NegInf PosInf = (Fin 0, Val 1)"
  by (simp only: ab_eval cong: if_weak_cong)

lemma selfplay_search_3:
  "minimax_result PLAYER_O PLAYER_X [Val PLAYER_X, Val PLAYER_X, Null, Null, Val PLAYER_O, Null, Null, Null, Null] PLAYER_O True 0 NegInf PosInf = (Fin 0, Val 2)"
  by (simp only: ab_eval cong: if_weak_cong)

lemma selfplay_search_4:
  "minimax_result PLAYER_X PLAYER_O [Val PLAYER_X, Val PLAYER_X, Val PLAYER_O, Null, Val PLAYER_O, Null, Null, Null, Null] PLAYER_X True 0 NegInf PosInf = (Fin 0, Val 6)"
  by (simp only: ab_eval cong: if_weak_cong)

lemma selfplay_search_5:
  "minimax_result PLAYER_O PLAYER_X [Val PLAYER_X, Val PLAYER_X, Val PLAYER_O, Null, Val PLAYER_O, Null, Val PLAYER_X, Null, Null] PLAYER_O True 0 NegInf PosInf = (Fin 0, Val 3)"
  by (simp only: ab_eval cong: if_weak_cong)

lemma selfplay_search_6:
  "minimax_result PLAYER_X PLAYER_O [Val PLAYER_X, Val PLAYER_X, Val PLAYER_O, Val PLAYER_O, Val PLAYER_O, Null, Val PLAYER_X, Null, Null] PLAYER_X True 0 NegInf PosInf = (Fin 0, Val 5)"
  by (simp only: ab_eval cong: if_weak_cong)

lemma selfplay_search_7:
  "minimax_result PLAYER_O PLAYER_X [Val PLAYER_X, Val PLAYER_X, Val PLAYER_O, Val PLAYER_O, Val PLAYER_O, Val PLAYER_X, Val PLAYER_X, Null, Null] PLAYER_O True 0 NegInf PosInf = (Fin 0, Val 7)"
  by (simp only: ab_eval cong: if_weak_cong)

lemma selfplay_search_8:
  "minimax_result PLAYER_X PLAYER_O [Val PLAYER_X, Val PLAYER_X, Val PLAYER_O, Val PLAYER_O, Val PLAYER_O, Val PLAYER_X, Val PLAYER_X, Val PLAYER_O, Null] PLAYER_X True 0 NegInf PosInf = (Fin 0, Val 8)"
  by (simp only: ab_eval cong: if_weak_cong)

subsection \<open>The Expert engine does not lose\<close>

lemma getEmptyIndices_setCell:
  assumes "k < length b" "v \<noteq> Null"
  shows "getEmptyIndices (setCell b k v) = filter (\<lambda>i. i \<noteq> k) (getEmptyIndices b)"
proof -
  have "(b[k := v]) ! i = Null \<longleftrightarrow> i \<noteq> k \<and> b ! i = Null" if "i < length b" for i
    using that assms by (cases "i = k") simp_all
  then have "filter (\<lambda>i. (b[k := v]) ! i = Null) [0..<length b]
             = filter (\<lambda>i. i \<noteq> k \<and> b ! i = Null) [0..<length b]"
    by (intro filter_cong) simp_all
  then show ?thesis using assms(1) by (simp add: getEmptyIndices_def setCell_def conj_commute)
qed

lemma filter_eq_single:
  "distinct xs \<Longrightarrow> k \<in> set xs \<Longrightarrow> filter (\<lambda>i. i = k) xs = [k]"
  by (induction xs) (auto simp: filter_empty_conv)

lemma length_getEmptyIndices_setCell:
  assumes "k \<in> set (getEmptyIndices b)" "v \<noteq> Null"
  shows "Suc (length (getEmptyIndices (setCell b k v))) = length (getEmptyIndices b)"
proof -
  let ?es = "getEmptyIndices b"
  have k: "k < length b" using assms(1) by (simp add: set_getEmptyIndices)
  have "filter (\<lambda>i. i = k) ?es = [k]"
    using distinct_getEmptyIndices assms(1) by (rule filter_eq_single)
  moreover have "length (filter (\<lambda>i. i = k) ?es) + length (filter (\<lambda>i. \<not> i = k) ?es) = length ?es"
    by (rule sum_length_filter_compl)
  ultimately show ?thesis using getEmptyIndices_setCell[OF k assms(2)] by simp
qed

lemma unpruned_fold_max_ge:
  "mx \<Longrightarrow> L \<le> fst (unpruned_fold ai hu b p mx d best es)
       \<longleftrightarrow> L \<le> fst best \<or> (\<exists>k \<in> set es. L \<le> unpruned_child ai hu b p mx d k)"
  by (induction es arbitrary: best) (auto simp: unpruned_fold_simps fst_ab_step le_max_iff_disj)

lemma unpruned_fold_min_ge:
  "\<not> mx \<Longrightarrow> L \<le> fst (unpruned_fold ai hu b p mx d best es)
       \<longleftrightarrow> L \<le> fst best \<and> (\<forall>k \<in> set es. L \<le> unpruned_child ai hu b p mx d k)"
  by (induction es arbitrary: best) (auto simp: unpruned_fold_simps fst_ab_step)

lemma leaf_move_sign:
  "d \<le> 9 \<Longrightarrow> d' \<le> 9 \<Longrightarrow> Fin 0 \<le> fst (leaf_move ai hu b d) \<longleftrightarrow> Fin 0 \<le> fst (leaf_move ai hu b d')"
  by (simp add: leaf_move_def)

lemma unpruned_sign_shift:
  "length (getEmptyIndices b) = n \<Longrightarrow> n + d \<le> 9 \<Longrightarrow> n + d' \<le> 9
   \<Longrightarrow> Fin 0 \<le> fst (minimax_unpruned ai hu b p mx d) \<longleftrightarrow> Fin 0 \<le> fst (minimax_unpruned ai hu b p mx d')"
proof (induction n arbitrary: b d d' p mx)
  case 0
  then have t: "terminal ai hu b d" "terminal ai hu b d'" by (simp_all add: terminal_def)
  have "d \<le> 9" "d' \<le> 9" using 0 by simp_all
  from leaf_move_sign[OF this] show ?case
    by (simp only: unpruned_terminal[OF t(1)] unpruned_terminal[OF t(2)])
next
  case (Suc n)
  have dd: "d \<le> 8" "d' \<le> 8" using Suc.prems by simp_all
  then have t: "terminal ai hu b d \<longleftrightarrow> terminal ai hu b d'" by (simp add: terminal_def)
  show ?case
  proof (cases "terminal ai hu b d")
    case True
    then have t': "terminal ai hu b d'" using t by simp
    have "d \<le> 9" "d' \<le> 9" using dd by simp_all
    from leaf_move_sign[OF this] show ?thesis
      by (simp only: unpruned_terminal[OF True] unpruned_terminal[OF t'])
  next
    case False
    then have f': "\<not> terminal ai hu b d'" using t by simp
    let ?es = "getEmptyIndices b"
    have ch: "Fin 0 \<le> unpruned_child ai hu b p mx d k \<longleftrightarrow> Fin 0 \<le> unpruned_child ai hu b p mx d' k"
      if "k \<in> set ?es" for k
    proof -
      have n: "length (getEmptyIndices (setCell b k (Val p))) = n"
        using length_getEmptyIndices_setCell[OF that, of "Val p"] Suc.prems(1) by simp
      have a: "n + (d + 1) \<le> 9" "n + (d' + 1) \<le> 9" using Suc.prems(2,3) by simp_all
      show ?thesis
        unfolding unpruned_child_def by (rule Suc.IH[OF n a])
    qed
    show ?thesis
    proof (cases mx)
      case True
      have "Fin 0 \<le> fst (unpruned_fold ai hu b p mx d (NegInf, Val (hd ?es)) ?es)
            \<longleftrightarrow> (\<exists>k \<in> set ?es. Fin 0 \<le> unpruned_child ai hu b p mx d k)"
        using unpruned_fold_max_ge[OF True, of "Fin 0" ai hu b p d "(NegInf, Val (hd ?es))" ?es] by simp
      also have "\<dots> \<longleftrightarrow> (\<exists>k \<in> set ?es. Fin 0 \<le> unpruned_child ai hu b p mx d' k)"
        using ch by blast
      also have "\<dots> \<longleftrightarrow> Fin 0 \<le> fst (unpruned_fold ai hu b p mx d' (NegInf, Val (hd ?es)) ?es)"
        using unpruned_fold_max_ge[OF True, of "Fin 0" ai hu b p d' "(NegInf, Val (hd ?es))" ?es] by simp
      finally show ?thesis
        using True by (simp only: unpruned_node_fold[OF False] unpruned_node_fold[OF f'] if_True)
    next
      case mn: False
      have "Fin 0 \<le> fst (unpruned_fold ai hu b p mx d (PosInf, Val (hd ?es)) ?es)
            \<longleftrightarrow> (\<forall>k \<in> set ?es. Fin 0 \<le> unpruned_child ai hu b p mx d k)"
        using unpruned_fold_min_ge[OF mn, of "Fin 0" ai hu b p d "(PosInf, Val (hd ?es))" ?es] by simp
      also have "\<dots> \<longleftrightarrow> (\<forall>k \<in> set ?es. Fin 0 \<le> unpruned_child ai hu b p mx d' k)"
        using ch by blast
      also have "\<dots> \<longleftrightarrow> Fin 0 \<le> fst (unpruned_fold ai hu b p mx d' (PosInf, Val (hd ?es)) ?es)"
        using unpruned_fold_min_ge[OF mn, of "Fin 0" ai hu b p d' "(PosInf, Val (hd ?es))" ?es] by simp
      finally show ?thesis
        using mn by (simp only: unpruned_node_fold[OF False] unpruned_node_fold[OF f'] if_False)
    qed
  qed
qed

lemma getOptimalMove_eq:
  "getOptimalMove st =
     (snd (minimax_result (aiPlayer st) (humanPlayer st) (board st) (aiPlayer st) True 0 NegInf PosInf), st)"
  using getOptimalMove_index[of st] getOptimalMove_state[of st] by (metis prod.collapse)

lemma not_draw_has_empty:
  assumes "\<not> checkForDraw st" "\<not> checkForWin PLAYER_X (board st)" "\<not> checkForWin PLAYER_O (board st)"
  shows "getEmptyIndices (board st) \<noteq> []"
proof -
  from assms have "\<not> list_all (\<lambda>cell. cell \<noteq> Null) (board st)" by (simp add: checkForDraw_def)
  then obtain c where "c \<in> set (board st)" "c = Null" by (auto simp: list_all_iff)
  then obtain i where "i < length (board st)" "board st ! i = Null" by (auto simp: in_set_conv_nth)
  then have "i \<in> set (getEmptyIndices (board st))" by (simp add: set_getEmptyIndices)
  then show ?thesis by auto
qed

lemma root_child_unfold:
  "unpruned_child ai hu b ai True 0 i = fst (minimax_unpruned ai hu (setCell b i (Val ai)) hu False 1)"
  by (simp add: unpruned_child_def)

lemma expert_inv_start:
  assumes "length (board st) = 9" "aiPlayer st = PLAYER_X" "humanPlayer st = PLAYER_O"
      and "difficulty st = ''hard''"
  shows "expert_inv (startNewRound st)"
proof -
  let ?e = "[Null, Null, Null, Null, Null, Null, Null, Null, Null] :: board"
  have b: "map (\<lambda>_. Null) (board st) = ?e"
    using assms(1) by (simp add: map_replicate_const eval_nat_numeral)
  have v: "fst (minimax_unpruned PLAYER_X PLAYER_O ?e PLAYER_X True 0) = Fin 0"
    using selfplay_search_0 minimax_root_unpruned[of PLAYER_X PLAYER_O ?e PLAYER_X 0] by simp
  have w: "\<not> checkForWin p ?e" for p
    by (simp add: checkForWin_def WINNING_COMBINATIONS_def cellAt_def)
  have e: "getEmptyIndices ?e \<noteq> []" by (simp add: getEmptyIndices_def upt_rec)
  show ?thesis
    using assms v w e by (simp add: expert_inv_def startNewRound_def b)
qed

lemma expert_inv_engine:
  assumes inv: "expert_inv st"
  shows "expert_inv (makeAIMove st r1 r2)"
proof (cases "gameState st \<noteq> PLAYING \<or> currentPlayer st \<noteq> aiPlayer st")
  case True
  then show ?thesis using inv by (simp add: makeAIMove_def)
next
  case False
  let ?b = "board st"
  have ai: "aiPlayer st = PLAYER_X" and hu: "humanPlayer st = PLAYER_O" and dif: "difficulty st = ''hard''"
    and len: "length ?b = 9" using inv by (simp_all add: expert_inv_def)
  have pl: "gameState st = PLAYING" and cur: "currentPlayer st = PLAYER_X" using False ai by simp_all
  have live: "\<not> checkForWin (aiPlayer st) ?b" "\<not> checkForWin (humanPlayer st) ?b"
    and ne: "getEmptyIndices ?b \<noteq> []"
    and val: "Fin 0 \<le> fst (minimax_unpruned PLAYER_X PLAYER_O ?b PLAYER_X True 0)"
    using inv pl cur ai hu by (simp_all add: expert_inv_def)
  from getOptimalMove_first_max[OF ne live]
  obtain i where i: "fst (getOptimalMove st) = Val i" "i < length ?b" "?b ! i = Null"
      "fst (minimax_result (aiPlayer st) (humanPlayer st) ?b (aiPlayer st) True 0 NegInf PosInf)
         = unpruned_child (aiPlayer st) (humanPlayer st) ?b (aiPlayer st) True 0 i"
    by blast
  let ?b1 = "setCell ?b i (Val PLAYER_X)"
  have v1: "Fin 0 \<le> fst (minimax_unpruned PLAYER_X PLAYER_O ?b1 PLAYER_O False 1)"
    using i(4) val by (simp add: minimax_root_unpruned root_child_unfold ai hu)
  have best: "getBestAIMove st r1 r2 = (Val i, st)"
    using ne dif i(1) getOptimalMove_state[of st]
    by (simp add: getBestAIMove_def) (metis prod.collapse)
  let ?st1 = "st\<lparr>board := ?b1, moveCount := moveCount st + 1\<rparr>"
  have mm: "makeMove st (Val i) PLAYER_X = ?st1"
    using i(2,3) len by (simp add: cellAt_def)
  have step: "makeAIMove st r1 r2 =
        (if checkForWin PLAYER_X ?b1 then endGame ?st1 False (Val PLAYER_X)
         else if checkForDraw ?st1 then endGame ?st1 True Null
         else switchTurns ?st1)"
    using False best mm ai by (simp add: makeAIMove_def del: makeMove.simps)
  have len1: "length ?b1 = 9" using i(2) len by (simp add: length_setCell)
  have wo: "\<not> checkForWin PLAYER_O ?b1"
    using checkForWin_other[of PLAYER_X PLAYER_O i ?b] i(2) live(2) hu by auto
  show ?thesis
  proof (cases "checkForWin PLAYER_X ?b1")
    case True
    then show ?thesis using step ai hu dif len1 by (simp add: expert_inv_def endGame_def)
  next
    case nw: False
    show ?thesis
    proof (cases "checkForDraw ?st1")
      case True
      then show ?thesis using step nw ai hu dif len1 by (simp add: expert_inv_def endGame_def)
    next
      case nd: False
      have ne1: "getEmptyIndices ?b1 \<noteq> []"
        using not_draw_has_empty[OF nd] nw wo by simp
      have "i \<in> set (getEmptyIndices ?b)" using i(2,3) by (simp add: set_getEmptyIndices)
      from length_getEmptyIndices_setCell[OF this, of "Val PLAYER_X"]
      have "Suc (length (getEmptyIndices ?b1)) = length (getEmptyIndices ?b)" by simp
      moreover have "length (getEmptyIndices ?b) \<le> 9"
        using len by (simp add: getEmptyIndices_def) (metis diff_zero length_filter_le length_upt)
      ultimately have l8: "length (getEmptyIndices ?b1) \<le> 8" by simp
      show ?thesis
        using step nw nd ai hu dif len1 wo ne1 l8 v1 pl cur
        by (simp add: expert_inv_def switchTurns_def)
    qed
  qed
qed

lemma expert_inv_human:
  assumes inv: "expert_inv st"
  shows "expert_inv (handlePlayerInput st cellIndex)"
proof (cases "gameState st = PLAYING \<and> (\<exists>k. cellIndex = Some k \<and> 0 \<le> k \<and> k \<le> 8
                \<and> currentPlayer st = humanPlayer st \<and> cellAt (board st) (nat k) = Null)")
  case False
  then have "handlePlayerInput st cellIndex = st"
    by (auto simp: handlePlayerInput_def split: option.splits)
  then show ?thesis using inv by simp
next
  case True
  then obtain k where k: "cellIndex = Some k" "0 \<le> k" "k \<le> 8" "cellAt (board st) (nat k) = Null"
    and pl: "gameState st = PLAYING" and curh: "currentPlayer st = humanPlayer st" by blast
  let ?b = "board st" and ?j = "nat k"
  have ai: "aiPlayer st = PLAYER_X" and hu: "humanPlayer st = PLAYER_O" and dif: "difficulty st = ''hard''"
    and len: "length ?b = 9" using inv by (simp_all add: expert_inv_def)
  have cur: "currentPlayer st = PLAYER_O" using curh hu by simp
  have live: "\<not> checkForWin PLAYER_X ?b" "\<not> checkForWin PLAYER_O ?b"
    and ne: "getEmptyIndices ?b \<noteq> []" and l8: "length (getEmptyIndices ?b) \<le> 8"
    and val: "Fin 0 \<le> fst (minimax_unpruned PLAYER_X PLAYER_O ?b PLAYER_O False 1)"
    using inv pl cur by (simp_all add: expert_inv_def)
  have j: "?j < length ?b" "?b ! ?j = Null" "?j \<le> 8" using k by (simp_all add: cellAt_Null)
  have jes: "?j \<in> set (getEmptyIndices ?b)" using j by (simp add: set_getEmptyIndices)
  let ?b2 = "setCell ?b ?j (Val PLAYER_O)"
  have nt: "\<not> terminal PLAYER_X PLAYER_O ?b 1" using live ne by (simp add: terminal_def)
  have "Fin 0 \<le> fst (unpruned_fold PLAYER_X PLAYER_O ?b PLAYER_O False 1
                        (PosInf, Val (hd (getEmptyIndices ?b))) (getEmptyIndices ?b))"
    using val unfolding unpruned_node_fold[OF nt] by (simp only: if_False)
  then have "\<forall>k \<in> set (getEmptyIndices ?b). Fin 0 \<le> unpruned_child PLAYER_X PLAYER_O ?b PLAYER_O False 1 k"
    using unpruned_fold_min_ge[of False "Fin 0" PLAYER_X PLAYER_O ?b PLAYER_O 1] by simp
  then have v2: "Fin 0 \<le> fst (minimax_unpruned PLAYER_X PLAYER_O ?b2 PLAYER_X True (1 + 1))"
    using jes by (simp add: unpruned_child_def)
  have wx: "\<not> checkForWin PLAYER_X ?b2"
    using checkForWin_other[of PLAYER_O PLAYER_X ?j ?b] j(1) live(1) by auto
  have wo: "\<not> checkForWin PLAYER_O ?b2"
  proof
    assume "checkForWin PLAYER_O ?b2"
    then have "minimax_unpruned PLAYER_X PLAYER_O ?b2 PLAYER_X True (1 + 1) = (Fin (- 8), Null)"
      using wx by (simp add: unpruned_terminal terminal_def leaf_move_def)
    then show False using v2 by simp
  qed
  let ?st1 = "st\<lparr>board := ?b2, moveCount := moveCount st + 1\<rparr>"
  have mm: "makeMove st (Val ?j) PLAYER_O = ?st1"
    using j k(4) by simp
  have step: "handlePlayerInput st cellIndex =
        (if checkForDraw ?st1 then endGame ?st1 True Null else switchTurns ?st1)"
    using k pl curh mm hu wo by (simp add: handlePlayerInput_def del: makeMove.simps)
  have len2: "length ?b2 = 9" using j(1) len by (simp add: length_setCell)
  show ?thesis
  proof (cases "checkForDraw ?st1")
    case True
    then show ?thesis using step ai hu dif len2 by (simp add: expert_inv_def endGame_def)
  next
    case nd: False
    have ne2: "getEmptyIndices ?b2 \<noteq> []"
      using not_draw_has_empty[OF nd] wx wo by simp
    from length_getEmptyIndices_setCell[OF jes, of "Val PLAYER_O"]
    have "Suc (length (getEmptyIndices ?b2)) = length (getEmptyIndices ?b)" by simp
    then have l7: "length (getEmptyIndices ?b2) + (1 + 1) \<le> 9" "length (getEmptyIndices ?b2) + 0 \<le> 9"
      using l8 by simp_all
    have v0: "Fin 0 \<le> fst (minimax_unpruned PLAYER_X PLAYER_O ?b2 PLAYER_X True 0)"
      using unpruned_sign_shift[OF refl l7, of PLAYER_X PLAYER_O PLAYER_X True] v2 by simp
    show ?thesis
      using step nd ai hu dif len2 wx wo ne2 v0 pl cur
      by (simp add: expert_inv_def switchTurns_def)
  qed
qed

lemma reachable_expert_inv: "reachable st \<Longrightarrow> expert_inv st"
  by (induction rule: reachable.induct)
     (simp_all add: expert_inv_start expert_inv_engine expert_inv_human)

lemmas play_eval = makeAIMove_def handlePlayerInput_def getBestAIMove_def getOptimalMove_eq
  swapSides_def getEmptyIndices_def upt_rec checkForWin_9 win9_def line3_def checkForDraw_def
  endGame_def switchTurns_def setCell_def cellAt_def

lemma expertStart_eq:
  "expertStart = \<lparr>gameState = PLAYING, humanPlayer = PLAYER_O, aiPlayer = PLAYER_X,
     currentPlayer = PLAYER_X, difficulty = ''hard'',
     board = [Null, Null, Null, Null, Null, Null, Null, Null, Null], moveCount = 0\<rparr>"
  by (simp add: expertStart_def startNewRound_def)

lemma selfPlay_draw:
  "selfPlay 9 expertStart = \<lparr>gameState = DRAW, humanPlayer = PLAYER_X, aiPlayer = PLAYER_O,
     currentPlayer = PLAYER_X, difficulty = ''hard'',
     board = [Val PLAYER_X, Val PLAYER_X, Val PLAYER_O, Val PLAYER_O, Val PLAYER_O, Val PLAYER_X,
              Val PLAYER_X, Val PLAYER_O, Val PLAYER_X], moveCount = 9\<rparr>"
  by (simp add: eval_nat_numeral expertStart_eq play_eval
      selfplay_search_0 selfplay_search_1 selfplay_search_2 selfplay_search_3 selfplay_search_4
      selfplay_search_5 selfplay_search_6 selfplay_search_7 selfplay_search_8)

lemma round1_state_eq:
  "round1_state = \<lparr>gameState = PLAYING, humanPlayer = PLAYER_O, aiPlayer = PLAYER_X,
     currentPlayer = PLAYER_X, difficulty = ''hard'',
     board = [Val PLAYER_X, Null, Null, Null, Val PLAYER_O, Null, Null, Null, Null], moveCount = 2\<rparr>"
  by (simp add: round1_state_def expertStart_eq play_eval selfplay_search_0)

lemma reachable_expertStart: "reachable expertStart"
  unfolding expertStart_def by (rule reachable.start) simp_all

text \<open>
  Claim C1.  In every state of a round in which the engine plays X (it moves first) at
  difficulty \<open>hard\<close>, whatever cells the human clicks: the human has not won, and when the
  round is running and the engine is to move, the root call of \<open>minimax\<close> made by
  \<open>getOptimalMove\<close> returns a score of at least 0.  A game from the empty board in which
  both sides choose with \<open>getOptimalMove\<close> ends in a draw.
\<close>

theorem expert_never_loses:
  "(reachable st \<longrightarrow>
      gameState st \<noteq> O_WINS
      \<and> (gameState st = PLAYING \<and> currentPlayer st = aiPlayer st \<longrightarrow>
           Fin 0 \<le> fst (fst (minimax (aiPlayer st) (humanPlayer st) (board st) (aiPlayer st)
                               True 0 NegInf PosInf))))
   \<and> gameState (selfPlay 9 expertStart) = DRAW"
proof -
  have "Fin 0 \<le> fst (fst (minimax (aiPlayer st) (humanPlayer st) (board st) (aiPlayer st)
                             True 0 NegInf PosInf))"
    if r: "reachable st" and p: "gameState st = PLAYING" "currentPlayer st = aiPlayer st"
  proof -
    have inv: "expert_inv st" using r by (rule reachable_expert_inv)
    then have "Fin 0 \<le> fst (minimax_unpruned (aiPlayer st) (humanPlayer st) (board st) (aiPlayer st) True 0)"
      using p by (simp add: expert_inv_def)
    then show ?thesis
      using minimax_root_unpruned[of "aiPlayer st" "humanPlayer st" "board st" "aiPlayer st" 0]
      by (simp add: minimax_result_def)
  qed
  moreover have "gameState st \<noteq> O_WINS" if "reachable st"
    using reachable_expert_inv[OF that] by (simp add: expert_inv_def)
  ultimately show ?thesis by (simp add: selfPlay_draw)
qed

theorem expert_never_loses_witness:
  "reachable round1_state \<and> gameState round1_state = PLAYING
   \<and> currentPlayer round1_state = aiPlayer round1_state
   \<and> board round1_state = [Val PLAYER_X, Null, Null, Null, Val PLAYER_O, Null, Null, Null, Null]
   \<and> gameState round1_state \<noteq> O_WINS
   \<and> Fin 0 \<le> fst (fst (minimax (aiPlayer round1_state) (humanPlayer round1_state) (board round1_state)
                            (aiPlayer round1_state) True 0 NegInf PosInf))"
proof -
  have r: "reachable round1_state"
    unfolding round1_state_def by (intro reachable.human reachable.engine reachable_expertStart)
  have p: "gameState round1_state = PLAYING" "currentPlayer round1_state = aiPlayer round1_state"
    "board round1_state = [Val PLAYER_X, Null, Null, Null, Val PLAYER_O, Null, Null, Null, Null]"
    by (simp_all add: round1_state_eq)
  show ?thesis using expert_never_loses[of round1_state] r p by simp
qed

end
